theory Spec2Isabelle
  imports Main "HOL-Library.AList"
begin

section \<open>The job graph of \<^verbatim>\<open>bigflow/workflow.py\<close>\<close>

text \<open>
  The development follows \<^verbatim>\<open>src/bigflow/workflow.py\<close>. A Python exception is a value of
  the type \<open>error\<close>; a function that can raise returns \<open>error + result\<close> with \<open>Inl\<close> for
  the exception. The parameter \<open>'a\<close> is the type of graph nodes.
\<close>

datatype 'a error =
    InvalidJobGraph 'a   \<comment> \<open>\<^verbatim>\<open>InvalidJobGraph(f"Found cyclic dependency on job {job}")\<close>\<close>
  | KeyError 'a          \<comment> \<open>a dictionary read at a missing key\<close>
  | ValueError string
  | NameError string     \<comment> \<open>the read of an unbound variable\<close>
  | AttributeError string   \<comment> \<open>the read of an attribute the object does not have\<close>
  | Exception string
  | OverflowError
  | JobFailure string    \<comment> \<open>an exception raised by the \<^verbatim>\<open>execute\<close> of a job\<close>

subsection \<open>Ordered dictionaries\<close>

text \<open>
  The graphs are Python dictionaries (\<^verbatim>\<open>dict\<close>, \<^verbatim>\<open>OrderedDict\<close>), which iterate in
  insertion order: association lists. \<^verbatim>\<open>k in d\<close> is \<open>map_of d k \<noteq> None\<close>, the read
  \<^verbatim>\<open>d[k]\<close> is \<open>map_of d k\<close> (\<open>None\<close> for the \<^verbatim>\<open>KeyError\<close>), the iteration
  \<^verbatim>\<open>for k in d\<close> runs over \<open>map fst d\<close>, the assignment \<^verbatim>\<open>d[k] = v\<close> is
  \<^const>\<open>AList.update\<close> (the value is replaced where the key stands, a new key goes last), and
  \<^verbatim>\<open>d[k].append(x)\<close> changes the entry of \<open>k\<close> in place.
\<close>

type_synonym 'a job_graph = "('a \<times> 'a list) list"

definition od_contains :: "('k \<times> 'v) list \<Rightarrow> 'k \<Rightarrow> bool" where
  "od_contains d k = (map_of d k \<noteq> None)"

definition od_append :: "('k \<times> 'v list) list \<Rightarrow> 'k \<Rightarrow> 'v \<Rightarrow> ('k \<times> 'v list) list" where
  "od_append d k x = AList.map_entry k (\<lambda>vs. vs @ [x]) d"

subsection \<open>\<^verbatim>\<open>JobGraphValidator\<close>\<close>

text \<open>
  \<^verbatim>\<open>
  def _validate_job(self, job, visited, stack):
      if job in stack:
          raise InvalidJobGraph(f"Found cyclic dependency on job {job}")
      if job in visited:
          return
      visited.add(job)
      if not job in self.job_graph:
          return
      stack.add(job)
      for dep in self.job_graph[job]:
          self._validate_job(dep, visited, stack)
      stack.remove(job)
  \<close>
  The two sets are mutated in place; the model passes the pair \<open>(visited, stack)\<close> and
  returns it. \<open>validate_jobs\<close> is the \<^verbatim>\<open>for\<close> loop over a list of jobs, each handed to
  \<^verbatim>\<open>_validate_job\<close> with the sets as the previous call left them.
\<close>

function validate_job ::
    "'a job_graph \<Rightarrow> 'a \<Rightarrow> 'a set \<times> 'a set \<Rightarrow> 'a error + 'a set \<times> 'a set"
  and validate_jobs ::
    "'a job_graph \<Rightarrow> 'a list \<Rightarrow> 'a set \<times> 'a set \<Rightarrow> 'a error + 'a set \<times> 'a set"
where
  "validate_job g job (visited, stack) =
     (if job \<in> stack then Inl (InvalidJobGraph job)
      else if job \<in> visited then Inr (visited, stack)
      else (case map_of g job of
              None \<Rightarrow> Inr (insert job visited, stack)
            | Some deps \<Rightarrow>
                (case validate_jobs g deps (insert job visited, insert job stack) of
                   Inl e \<Rightarrow> Inl e
                 | Inr (visited', stack') \<Rightarrow> Inr (visited', stack' - {job}))))"
| "validate_jobs g [] st = Inr st"
| "validate_jobs g (dep # deps) st =
     (case validate_job g dep st of
        Inl e \<Rightarrow> Inl e
      | Inr st' \<Rightarrow> validate_jobs g deps st')"
  by pat_completeness auto

lemma validate_dom_visited:
  "validate_job_validate_jobs_dom (Inl (g, job, st)) \<Longrightarrow>
     validate_job g job st = Inr st' \<Longrightarrow> fst st \<subseteq> fst st'"
  "validate_job_validate_jobs_dom (Inr (g, deps, st)) \<Longrightarrow>
     validate_jobs g deps st = Inr st' \<Longrightarrow> fst st \<subseteq> fst st'"
proof (induction g job st and g deps st arbitrary: st' and st'
    rule: validate_job_validate_jobs.pinduct)
  case (1 g job visited stack)
  show ?case
  proof (cases "job \<in> stack \<or> job \<in> visited")
    case True
    with 1(1,3) show ?thesis by (auto simp: validate_job.psimps split: if_splits)
  next
    case False
    show ?thesis
    proof (cases "map_of g job")
      case None
      with False 1(1,3) show ?thesis by (auto simp: validate_job.psimps)
    next
      case (Some deps)
      with False 1(1,3) obtain v s
        where r: "validate_jobs g deps (insert job visited, insert job stack) = Inr (v, s)"
          and st': "st' = (v, s - {job})"
        by (auto simp: validate_job.psimps split: sum.splits)
      from 1(2)[OF _ _ Some r] False have "insert job visited \<subseteq> v" by simp
      with st' show ?thesis by auto
    qed
  qed
next
  case (2 g st)
  then show ?case by (simp add: validate_jobs.psimps)
next
  case (3 g dep deps st)
  from 3(1,4) obtain st1
    where a: "validate_job g dep st = Inr st1" and b: "validate_jobs g deps st1 = Inr st'"
    by (auto simp: validate_jobs.psimps split: sum.splits)
  from 3(2)[OF a] 3(3)[OF a b] show ?case by blast
qed

lemma card_unvisited_less:
  assumes "map_of g job = Some deps" "job \<notin> visited"
  shows "card (fst ` set g - insert job visited) < card (fst ` set g - visited)"
proof -
  from assms(1) have "job \<in> fst ` set g"
    by (metis map_of_eq_None_iff option.distinct(1))
  with assms(2) show ?thesis
    by (intro psubset_card_mono) auto
qed

lemma card_unvisited_mono:
  "visited \<subseteq> visited' \<Longrightarrow> card (fst ` set g - visited') \<le> card (fst ` set g - visited)"
  by (intro card_mono) auto

termination validate_job
proof (relation "inv_image (less_than <*lex*> less_than)
    (\<lambda>x. case x of
       Inl (g, job, st) \<Rightarrow> (card (fst ` set g - fst st), 0)
     | Inr (g, deps, st) \<Rightarrow> (card (fst ` set g - fst st), Suc (length deps)))", goal_cases)
  case 1
  show ?case by (intro wf_inv_image wf_lex_prod wf_less_than)
next
  case (2 g job visited stack deps)
  then show ?case using card_unvisited_less[of g job deps visited] by simp
next
  case (3 g dep deps st)
  show ?case by simp
next
  case (4 g dep deps st st')
  from validate_dom_visited(1)[OF 4(2) 4(1)] card_unvisited_mono[of "fst st" "fst st'" g]
  show ?case by auto
qed

declare validate_job.simps [simp del]

text \<open>
  \<^verbatim>\<open>
  def _validate_if_not_cyclic(self):
      visited = set()
      stack = set()
      for job in self.job_graph:
          self._validate_job(job, visited, stack)

  def validate(self):
      self._validate_if_not_cyclic()
  \<close>
\<close>

definition validate_if_not_cyclic :: "'a job_graph \<Rightarrow> 'a error + unit" where
  "validate_if_not_cyclic g =
     (case validate_jobs g (map fst g) ({}, {}) of Inl e \<Rightarrow> Inl e | Inr _ \<Rightarrow> Inr ())"

definition validate :: "'a job_graph \<Rightarrow> 'a error + unit" where
  "validate g = validate_if_not_cyclic g"

subsection \<open>\<^verbatim>\<open>JobOrderResolver\<close>\<close>

text \<open>
  \<^verbatim>\<open>
  def _fill_parental_map(self, job, parental_map, visited):
      if job not in self.job_graph or job in visited:
          return
      visited.add(job)

      if job not in parental_map:
          parental_map[job] = []

      for dependency in self.job_graph[job]:
          if dependency not in parental_map:
              parental_map[dependency] = []
          parental_map[dependency].append(job)
          self._fill_parental_map(dependency, parental_map, visited)
  \<close>
  The state is the pair \<open>(parental_map, visited)\<close>. \<open>fill_dependencies\<close> is the loop over the
  dependencies of \<open>job\<close>. The \<^verbatim>\<open>append\<close> finds its key: the line before it stores one.
\<close>

function fill_parental_map ::
    "'a job_graph \<Rightarrow> 'a \<Rightarrow> 'a job_graph \<times> 'a set \<Rightarrow> 'a job_graph \<times> 'a set"
  and fill_dependencies ::
    "'a job_graph \<Rightarrow> 'a \<Rightarrow> 'a list \<Rightarrow> 'a job_graph \<times> 'a set \<Rightarrow> 'a job_graph \<times> 'a set"
where
  "fill_parental_map g job (parental_map, visited) =
     (case map_of g job of
        None \<Rightarrow> (parental_map, visited)
      | Some deps \<Rightarrow>
          if job \<in> visited then (parental_map, visited)
          else fill_dependencies g job deps
                 (if od_contains parental_map job then parental_map
                  else AList.update job [] parental_map,
                  insert job visited))"
| "fill_dependencies g job [] st = st"
| "fill_dependencies g job (dependency # deps) (parental_map, visited) =
     fill_dependencies g job deps
       (fill_parental_map g dependency
          (od_append
             (if od_contains parental_map dependency then parental_map
              else AList.update dependency [] parental_map)
             dependency job,
           visited))"
  by pat_completeness auto

lemma fill_dom_visited:
  "fill_parental_map_fill_dependencies_dom (Inl (g, job, st)) \<Longrightarrow>
     snd st \<subseteq> snd (fill_parental_map g job st)"
  "fill_parental_map_fill_dependencies_dom (Inr (g, job, deps, st)) \<Longrightarrow>
     snd st \<subseteq> snd (fill_dependencies g job deps st)"
proof (induction g job st and g job deps st rule: fill_parental_map_fill_dependencies.pinduct)
  case (1 g job parental_map visited)
  show ?case
  proof (cases "map_of g job")
    case None
    with 1(1) show ?thesis by (simp add: fill_parental_map.psimps)
  next
    case (Some deps)
    show ?thesis
    proof (cases "job \<in> visited")
      case True
      with Some 1(1) show ?thesis by (simp add: fill_parental_map.psimps)
    next
      case False
      from 1(2)[OF Some False] Some False 1(1) show ?thesis
        by (auto simp: fill_parental_map.psimps)
    qed
  qed
next
  case (2 g job st)
  then show ?case by (simp add: fill_dependencies.psimps)
next
  case (3 g job dependency deps parental_map visited)
  have "snd (parental_map, visited) \<subseteq> visited" by simp
  also note 3(2)[simplified]
  also note 3(3)
  finally show ?case using 3(1) by (simp add: fill_dependencies.psimps)
qed

termination fill_parental_map
proof (relation "inv_image (less_than <*lex*> less_than)
    (\<lambda>x. case x of
       Inl (g, job, st) \<Rightarrow> (card (fst ` set g - snd st), 0)
     | Inr (g, job, deps, st) \<Rightarrow> (card (fst ` set g - snd st), Suc (length deps)))", goal_cases)
  case 1
  show ?case by (intro wf_inv_image wf_lex_prod wf_less_than)
next
  case (2 g job parental_map visited deps)
  then show ?case using card_unvisited_less[of g job deps visited] by simp
next
  case (3 g job dependency deps parental_map visited)
  show ?case by simp
next
  case (4 g job dependency deps parental_map visited)
  from fill_dom_visited(1)[OF 4]
    card_unvisited_mono[of visited
      "snd (fill_parental_map g dependency
          (od_append
             (if od_contains parental_map dependency then parental_map
              else AList.update dependency [] parental_map)
             dependency job,
           visited))" g]
  show ?case by auto
qed

declare fill_parental_map.simps [simp del]

text \<open>
  \<^verbatim>\<open>
  def _build_parental_map(self):
      visited = set()
      parental_map = OrderedDict()
      for job in self.job_graph:
          self._fill_parental_map(job, parental_map, visited)
      return parental_map
  \<close>
\<close>

fun fill_jobs :: "'a job_graph \<Rightarrow> 'a list \<Rightarrow> 'a job_graph \<times> 'a set \<Rightarrow> 'a job_graph \<times> 'a set"
where
  "fill_jobs g [] st = st"
| "fill_jobs g (job # jobs) st = fill_jobs g jobs (fill_parental_map g job st)"

definition build_parental_map :: "'a job_graph \<Rightarrow> 'a job_graph" where
  "build_parental_map g = fst (fill_jobs g (map fst g) ([], {}))"

text \<open>
  \<^verbatim>\<open>
  def _call_on_graph_node_helper(self, job, parental_map, visited, consumer):
      if job in visited:
          return
      visited.add(job)

      for parent in parental_map[job]:
          self._call_on_graph_node_helper(
              parent, parental_map, visited, consumer)
      consumer(job, parental_map[job])
  \<close>
  The consumer is a callback with an effect; the model gives it a state \<open>'s\<close> of its own,
  which it transforms at every call. The state of the traversal is the pair of
  \<open>visited\<close> and the consumer's state. \<open>call_on_parents\<close> is the loop over the parents.
\<close>

function call_on_graph_node_helper ::
    "('a \<Rightarrow> 'a list \<Rightarrow> 's \<Rightarrow> 's) \<Rightarrow> 'a job_graph \<Rightarrow> 'a \<Rightarrow> 'a set \<times> 's \<Rightarrow> 'a error + 'a set \<times> 's"
  and call_on_parents ::
    "('a \<Rightarrow> 'a list \<Rightarrow> 's \<Rightarrow> 's) \<Rightarrow> 'a job_graph \<Rightarrow> 'a list \<Rightarrow> 'a set \<times> 's \<Rightarrow> 'a error + 'a set \<times> 's"
where
  "call_on_graph_node_helper consumer parental_map job (visited, s) =
     (if job \<in> visited then Inr (visited, s)
      else (case map_of parental_map job of
              None \<Rightarrow> Inl (KeyError job)
            | Some parents \<Rightarrow>
                (case call_on_parents consumer parental_map parents (insert job visited, s) of
                   Inl e \<Rightarrow> Inl e
                 | Inr (visited', s') \<Rightarrow> Inr (visited', consumer job parents s'))))"
| "call_on_parents consumer parental_map [] st = Inr st"
| "call_on_parents consumer parental_map (parent # parents) st =
     (case call_on_graph_node_helper consumer parental_map parent st of
        Inl e \<Rightarrow> Inl e
      | Inr st' \<Rightarrow> call_on_parents consumer parental_map parents st')"
  by pat_completeness auto

lemma call_dom_visited:
  "call_on_graph_node_helper_call_on_parents_dom (Inl (c, pm, job, st)) \<Longrightarrow>
     call_on_graph_node_helper c pm job st = Inr st' \<Longrightarrow> fst st \<subseteq> fst st'"
  "call_on_graph_node_helper_call_on_parents_dom (Inr (c, pm, parents, st)) \<Longrightarrow>
     call_on_parents c pm parents st = Inr st' \<Longrightarrow> fst st \<subseteq> fst st'"
proof (induction c pm job st and c pm parents st arbitrary: st' and st'
    rule: call_on_graph_node_helper_call_on_parents.pinduct)
  case (1 c pm job visited s)
  show ?case
  proof (cases "job \<in> visited")
    case True
    with 1(1,3) show ?thesis by (auto simp: call_on_graph_node_helper.psimps)
  next
    case False
    with 1(1,3) obtain parents v s1
      where p: "map_of pm job = Some parents"
        and r: "call_on_parents c pm parents (insert job visited, s) = Inr (v, s1)"
        and st': "st' = (v, c job parents s1)"
      by (auto simp: call_on_graph_node_helper.psimps split: option.splits sum.splits)
    from 1(2)[OF False p r] have "insert job visited \<subseteq> v" by simp
    with st' show ?thesis by auto
  qed
next
  case (2 c pm st)
  then show ?case by (simp add: call_on_parents.psimps)
next
  case (3 c pm parent parents st)
  from 3(1,4) obtain st1
    where a: "call_on_graph_node_helper c pm parent st = Inr st1"
      and b: "call_on_parents c pm parents st1 = Inr st'"
    by (auto simp: call_on_parents.psimps split: sum.splits)
  from 3(2)[OF a] 3(3)[OF a b] show ?case by blast
qed

termination call_on_graph_node_helper
proof (relation "inv_image (less_than <*lex*> less_than)
    (\<lambda>x. case x of
       Inl (c, pm, job, st) \<Rightarrow> (card (fst ` set pm - fst st), 0)
     | Inr (c, pm, parents, st) \<Rightarrow> (card (fst ` set pm - fst st), Suc (length parents)))",
    goal_cases)
  case 1
  show ?case by (intro wf_inv_image wf_lex_prod wf_less_than)
next
  case (2 c pm job visited s parents)
  then show ?case using card_unvisited_less[of pm job parents visited] by simp
next
  case (3 c pm parent parents st)
  show ?case by simp
next
  case (4 c pm parent parents st st')
  from call_dom_visited(1)[OF 4(2) 4(1)] card_unvisited_mono[of "fst st" "fst st'" pm]
  show ?case by auto
qed

declare call_on_graph_node_helper.simps [simp del]

text \<open>
  \<^verbatim>\<open>
  def call_on_graph_nodes(self, consumer):
      visited = set()
      for job in self.parental_map:
          self._call_on_graph_node_helper(
              job, self.parental_map, visited, consumer)

  def find_sequential_run_order(self):
      ordered_jobs = []

      def add_to_ordered_job(job, dependencies):
          ordered_jobs.append(job)

      self.call_on_graph_nodes(add_to_ordered_job)
      return ordered_jobs
  \<close>
  The resolver computes \<^verbatim>\<open>self.parental_map\<close> in its constructor from the graph it is
  given. \<open>call_on_graph_nodes\<close> takes the consumer's initial state and returns its final
  state.
\<close>

record 'a job_order_resolver =
  job_graph :: "'a job_graph"
  parental_map :: "'a job_graph"

definition JobOrderResolver :: "'a job_graph \<Rightarrow> 'a job_order_resolver" where
  "JobOrderResolver g = \<lparr>job_graph = g, parental_map = build_parental_map g\<rparr>"

definition call_on_graph_nodes ::
    "'a job_order_resolver \<Rightarrow> ('a \<Rightarrow> 'a list \<Rightarrow> 's \<Rightarrow> 's) \<Rightarrow> 's \<Rightarrow> 'a error + 's" where
  "call_on_graph_nodes self consumer s =
     (case call_on_parents consumer (parental_map self) (map fst (parental_map self)) ({}, s) of
        Inl e \<Rightarrow> Inl e
      | Inr (visited, s') \<Rightarrow> Inr s')"

definition add_to_ordered_job :: "'a \<Rightarrow> 'a list \<Rightarrow> 'a list \<Rightarrow> 'a list" where
  "add_to_ordered_job job dependencies ordered_jobs = ordered_jobs @ [job]"

definition find_sequential_run_order :: "'a job_order_resolver \<Rightarrow> 'a error + 'a list" where
  "find_sequential_run_order self = call_on_graph_nodes self add_to_ordered_job []"

text \<open>
  \<^verbatim>\<open>
  @staticmethod
  def _convert_list_to_graph(job_list):
      graph_as_dict = OrderedDict()
      if len(job_list) == 1:
          graph_as_dict[job_list[0]] = []
      else:
          for i in range(1, len(job_list)):
              graph_as_dict[job_list[i - 1]] = [job_list[i]]
      return graph_as_dict
  \<close>
  The indices of the loop stay below \<^verbatim>\<open>len(job_list)\<close>, so no read is out of range.
\<close>

definition convert_list_to_graph :: "'a list \<Rightarrow> 'a job_graph" where
  "convert_list_to_graph job_list =
     (if length job_list = 1 then AList.update (job_list ! 0) [] []
      else fold (\<lambda>i graph_as_dict. AList.update (job_list ! (i - 1)) [job_list ! i] graph_as_dict)
             [1..<length job_list] [])"

text \<open>
  The consumer that records its calls: the list of the pairs \<open>(job, parents)\<close> it was
  called with, in the order of the calls.
\<close>

definition record_call :: "'a \<Rightarrow> 'a list \<Rightarrow> ('a \<times> 'a list) list \<Rightarrow> ('a \<times> 'a list) list" where
  "record_call job parents calls = calls @ [(job, parents)]"


section \<open>Timestamps\<close>

text \<open>
  A \<^verbatim>\<open>datetime\<close> is its date and its time of day. The date is held as the proleptic
  Gregorian ordinal of \<^verbatim>\<open>date.toordinal()\<close> (day 1 is 0001-01-01), the number Python's own
  arithmetic on timestamps works with; the source never reads a year, month or day. The
  time zone attached to a timestamp is left out: \<^verbatim>\<open>replace\<close> and the subtraction of a
  \<^verbatim>\<open>timedelta\<close> keep it and do not read it.
\<close>

record datetime =
  ordinal :: int
  hour :: int
  minute :: int
  second :: int
  microsecond :: int

definition MAXORDINAL :: int where
  "MAXORDINAL = 3652059"   \<comment> \<open>\<^verbatim>\<open>date.max.toordinal()\<close>, 9999-12-31\<close>

text \<open>
  The timestamps Python can hold: a day from 1 to \<^verbatim>\<open>MAXORDINAL\<close> and a time of day with
  every field in its range.
\<close>

definition valid_datetime :: "datetime \<Rightarrow> bool" where
  "valid_datetime d \<longleftrightarrow>
     1 \<le> ordinal d \<and> ordinal d \<le> MAXORDINAL \<and> 0 \<le> hour d \<and> hour d < 24 \<and>
     0 \<le> minute d \<and> minute d < 60 \<and> 0 \<le> second d \<and> second d < 60 \<and>
     0 \<le> microsecond d \<and> microsecond d < 1000000"

text \<open>
  A \<^verbatim>\<open>timedelta\<close> is a number of microseconds; Python keeps it normalised as
  \<^verbatim>\<open>days\<close>, \<^verbatim>\<open>seconds\<close> (0 to 86399) and \<^verbatim>\<open>microseconds\<close> (0 to 999999), the three
  attributes below. A negative duration has negative \<^verbatim>\<open>days\<close> and \<^verbatim>\<open>seconds\<close> counted
  up from there: \<^verbatim>\<open>timedelta(seconds=-18000)\<close> has \<^verbatim>\<open>days = -1\<close> and \<^verbatim>\<open>seconds = 68400\<close>.
\<close>

datatype timedelta = Timedelta (total_microseconds: int)

definition timedelta_seconds :: "int \<Rightarrow> timedelta" where   \<comment> \<open>\<^verbatim>\<open>timedelta(seconds=n)\<close>\<close>
  "timedelta_seconds n = Timedelta (n * 1000000)"

definition timedelta_hours :: "int \<Rightarrow> timedelta" where   \<comment> \<open>\<^verbatim>\<open>timedelta(hours=n)\<close>\<close>
  "timedelta_hours n = Timedelta (n * 3600 * 1000000)"

definition td_days :: "timedelta \<Rightarrow> int" where
  "td_days td = total_microseconds td div (86400 * 1000000)"

definition td_seconds :: "timedelta \<Rightarrow> int" where
  "td_seconds td = (total_microseconds td div 1000000) mod 86400"

definition td_microseconds :: "timedelta \<Rightarrow> int" where
  "td_microseconds td = total_microseconds td mod 1000000"

text \<open>
  \<^verbatim>\<open>datetime - timedelta\<close>, as \<^verbatim>\<open>datetime.__add__\<close> computes it: the timestamp becomes a
  duration since day 0, the \<^verbatim>\<open>timedelta\<close> is subtracted, and the normalised result is
  read back; a day outside 1 to \<^verbatim>\<open>MAXORDINAL\<close> raises \<^verbatim>\<open>OverflowError\<close>.
\<close>

definition datetime_total_microseconds :: "datetime \<Rightarrow> int" where
  "datetime_total_microseconds d =
     (((ordinal d * 24 + hour d) * 60 + minute d) * 60 + second d) * 1000000 + microsecond d"

definition datetime_sub :: "datetime \<Rightarrow> timedelta \<Rightarrow> 'a error + datetime" where
  "datetime_sub d td =
     (let delta = Timedelta (datetime_total_microseconds d - total_microseconds td);
          rem = td_seconds delta mod 3600
      in if 0 < td_days delta \<and> td_days delta \<le> MAXORDINAL
         then Inr \<lparr>ordinal = td_days delta, hour = td_seconds delta div 3600,
                   minute = rem div 60, second = rem mod 60,
                   microsecond = td_microseconds delta\<rparr>
         else Inl OverflowError)"

text \<open>
  What the process reads from outside the program: the two functions of the
  \<^verbatim>\<open>datetime\<close> library that parse and render a timestamp (\<^verbatim>\<open>strptime\<close> gives \<open>None\<close>
  where the library raises \<^verbatim>\<open>ValueError\<close>), the clock, and the offset of the local time
  zone from UTC. The theorems hold for every such environment.
\<close>

record environment =
  strptime :: "string \<Rightarrow> string \<Rightarrow> datetime option"
  strftime :: "datetime \<Rightarrow> string \<Rightarrow> string"
  now :: datetime
  local_utcoffset :: timedelta

text \<open>
  \<^verbatim>\<open>
  def get_timezone_offset_seconds() -> int:
      return dt.datetime.now().astimezone().tzinfo.utcoffset(None).seconds

  def hourly_start_time(start_time: dt.datetime) -> dt.datetime:
      td = dt.timedelta(seconds=get_timezone_offset_seconds())
      return start_time.replace(microsecond=0) - td

  def daily_start_time(start_time: dt.datetime) -> dt.datetime:
      td = dt.timedelta(hours=24)
      return start_time.replace(hour=0, minute=0, second=0, microsecond=0) - td
  \<close>
\<close>

definition get_timezone_offset_seconds :: "environment \<Rightarrow> int" where
  "get_timezone_offset_seconds env = td_seconds (local_utcoffset env)"

definition hourly_start_time :: "environment \<Rightarrow> datetime \<Rightarrow> 'a error + datetime" where
  "hourly_start_time env start_time =
     (let td = timedelta_seconds (get_timezone_offset_seconds env)
      in datetime_sub (start_time\<lparr>microsecond := 0\<rparr>) td)"

definition daily_start_time :: "datetime \<Rightarrow> 'a error + datetime" where
  "daily_start_time start_time =
     (let td = timedelta_hours 24
      in datetime_sub (start_time\<lparr>hour := 0, minute := 0, second := 0, microsecond := 0\<rparr>) td)"

section \<open>Jobs, definitions and workflows\<close>

text \<open>
  A job is an object with an \<^verbatim>\<open>id\<close>; \<open>has_execute\<close> says whether it has the attribute
  \<^verbatim>\<open>execute\<close> (a job of the old interface has \<^verbatim>\<open>run\<close> only). Two jobs may have the same
  \<^verbatim>\<open>id\<close> and still be two objects: \<open>job_ref\<close> is the identity of the object, the
  number that tells it from every other job. What \<^verbatim>\<open>job.execute(context)\<close> does is the
  job's own code: the functions that run jobs take it as the parameter \<open>behaviour\<close>, which
  tells for a job and a context whether the call returns (\<open>None\<close>) or raises (\<open>Some e\<close>).

  \<^verbatim>\<open>
  class WorkflowJob:
      def __init__(self, job, name):
          self.job = job
          self.name = name

      def run(self, runtime):
          self.job.run(runtime=runtime)

      def __hash__(self):
          return hash(self.name)

      def __eq__(self, other):
          return self.name == other.name
  \<close>
  A \<^verbatim>\<open>WorkflowJob\<close> has the attributes \<^verbatim>\<open>job\<close>, \<^verbatim>\<open>name\<close> and \<^verbatim>\<open>run\<close>, and neither
  \<^verbatim>\<open>id\<close> nor \<^verbatim>\<open>execute\<close>; the object it wraps is whatever it was given, a job or again a
  \<^verbatim>\<open>WorkflowJob\<close>. The objects the program handles are the values of \<open>job_object\<close>: a job,
  or a \<^verbatim>\<open>WorkflowJob\<close> of an object and a name. A name is a position in a list or a
  string. The read of an attribute an object does not have raises \<^verbatim>\<open>AttributeError\<close>.

  Python compares two \<^verbatim>\<open>WorkflowJob\<close>s by name and two jobs by identity; the model
  compares the values, which is the same wherever a name stands for one
  \<^verbatim>\<open>WorkflowJob\<close>, as it does in the list a workflow numbers.
\<close>

record job =
  job_ref :: nat
  job_id :: string
  has_execute :: bool

datatype job_name = Index nat | Name string

datatype job_object = JobObject job | WorkflowJob job_object job_name

fun get_job :: "job_object \<Rightarrow> job_object error + job_object" where   \<comment> \<open>\<^verbatim>\<open>obj.job\<close>\<close>
  "get_job (WorkflowJob job name) = Inr job"
| "get_job (JobObject j) = Inl (AttributeError ''job'')"

fun get_id :: "job_object \<Rightarrow> job_object error + string" where   \<comment> \<open>\<^verbatim>\<open>obj.id\<close>\<close>
  "get_id (JobObject j) = Inr (job_id j)"
| "get_id (WorkflowJob job name) = Inl (AttributeError ''id'')"

fun get_name :: "job_object \<Rightarrow> job_object error + job_name" where   \<comment> \<open>\<^verbatim>\<open>obj.name\<close>\<close>
  "get_name (WorkflowJob job name) = Inr name"
| "get_name (JobObject j) = Inl (AttributeError ''name'')"

text \<open>
  \<^verbatim>\<open>
  class Definition:
      def __init__(self, jobs: dict):
          self.job_graph = self._build_graph(jobs)
          self.job_order_resolver = JobOrderResolver(self.job_graph)

      def sequential_order(self):
          return self.job_order_resolver.find_sequential_run_order()

      def _build_graph(self, jobs):
          if isinstance(jobs, list):
              job_graph = self._convert_list_to_graph(jobs)
          elif isinstance(jobs, dict):
              job_graph = {self._map_to_workflow_job(source_job):
                               [self._map_to_workflow_job(tj) for tj in target_jobs]
                           for source_job, target_jobs in jobs.items()}
          else:
              raise ValueError("Job graph has to be dict or list")

          JobGraphValidator(job_graph).validate()
          return job_graph

      def _map_to_workflow_job(self, job):
          if not isinstance(job, WorkflowJob):
              job = WorkflowJob(job, job.id)
          return job
  \<close>
  The resolver of a definition is the one its constructor builds from the graph, and
  neither changes afterwards: the model keeps the graph and builds the resolver from it
  where it is used. The argument \<^verbatim>\<open>jobs\<close> is a list of objects, a dictionary (its items
  in the order of insertion, each a source and the list of its targets) or something
  else. The elements of a list become the nodes as they are, wrapped or not; the jobs of
  a dictionary are wrapped under their \<^verbatim>\<open>id\<close>, and the dictionary comprehension assigns
  the entries one after the other.
\<close>

record job_definition =
  d_job_graph :: "job_object job_graph"

definition job_order_resolver :: "job_definition \<Rightarrow> job_object job_order_resolver" where
  "job_order_resolver self = JobOrderResolver (d_job_graph self)"

definition sequential_order :: "job_definition \<Rightarrow> job_object error + job_object list" where
  "sequential_order self = find_sequential_run_order (job_order_resolver self)"

fun map_to_workflow_job :: "job_object \<Rightarrow> job_object" where
  "map_to_workflow_job (WorkflowJob job name) = WorkflowJob job name"
| "map_to_workflow_job (JobObject j) = WorkflowJob (JobObject j) (Name (job_id j))"

datatype jobs_arg =
    JobsList "job_object list" | JobsDict "(job_object \<times> job_object list) list" | JobsOther

definition build_graph :: "jobs_arg \<Rightarrow> job_object error + job_object job_graph" where
  "build_graph jobs =
     (case (case jobs of
              JobsList job_list \<Rightarrow> Inr (convert_list_to_graph job_list)
            | JobsDict items \<Rightarrow>
                Inr (fold (\<lambda>(source_job, target_jobs).
                             AList.update (map_to_workflow_job source_job)
                               (map map_to_workflow_job target_jobs)) items [])
            | JobsOther \<Rightarrow> Inl (ValueError ''Job graph has to be dict or list'')) of
        Inl e \<Rightarrow> Inl e
      | Inr job_graph' \<Rightarrow>
          (case validate job_graph' of Inl e \<Rightarrow> Inl e | Inr _ \<Rightarrow> Inr job_graph'))"

definition Definition :: "jobs_arg \<Rightarrow> job_object error + job_definition" where
  "Definition jobs =
     (case build_graph jobs of Inl e \<Rightarrow> Inl e | Inr g \<Rightarrow> Inr \<lparr>d_job_graph = g\<rparr>)"

text \<open>
  \<^verbatim>\<open>
  class Workflow(object):
      RUNTIME_FORMATS = [
          "%Y-%m-%d %H:%M:%S",
          "%Y-%m-%d",
      ]

      def __init__(self, workflow_id, definition, schedule_interval=DEFAULT_SCHEDULE_INTERVAL,
                   start_time_factory=daily_start_time, log_config=None):
          self.definition = self._parse_definition(definition)
          self.schedule_interval = schedule_interval
          self.workflow_id = workflow_id
          ...

      def _parse_definition(self, definition):
          if isinstance(definition, list):
              return Definition(self._map_to_workflow_jobs(definition))
          if isinstance(definition, Definition):
              return definition
          raise ValueError("Invalid argument %s" % definition)

      @staticmethod
      def _map_to_workflow_jobs(job_list):
          return [WorkflowJob(job, i) for i, job in enumerate(job_list)]
  \<close>
  The attributes \<^verbatim>\<open>start_time_factory\<close> and \<^verbatim>\<open>log_config\<close> are stored and never read by
  the code below; the model leaves them out. The argument \<^verbatim>\<open>definition\<close> is a list of
  objects, a \<^verbatim>\<open>Definition\<close> or something else, which is given by the text \<^verbatim>\<open>%s\<close>
  renders it to.
\<close>

definition DEFAULT_SCHEDULE_INTERVAL :: string where
  "DEFAULT_SCHEDULE_INTERVAL = ''@daily''"

definition RUNTIME_FORMATS :: "string list" where
  "RUNTIME_FORMATS = [''%Y-%m-%d %H:%M:%S'', ''%Y-%m-%d'']"

record workflow =
  wf_definition :: job_definition
  schedule_interval :: string
  workflow_id :: string

datatype definition_arg =
    DefinitionList "job_object list" | DefinitionObject job_definition | DefinitionOther string

definition map_to_workflow_jobs :: "job_object list \<Rightarrow> job_object list" where
  "map_to_workflow_jobs job_list =
     map (\<lambda>(i, job). WorkflowJob job (Index i)) (enumerate 0 job_list)"

definition parse_definition :: "definition_arg \<Rightarrow> job_object error + job_definition" where
  "parse_definition definition_arg =
     (case definition_arg of
        DefinitionList job_list \<Rightarrow> Definition (JobsList (map_to_workflow_jobs job_list))
      | DefinitionObject d \<Rightarrow> Inr d
      | DefinitionOther rendered \<Rightarrow> Inl (ValueError (''Invalid argument '' @ rendered)))"

definition Workflow :: "string \<Rightarrow> definition_arg \<Rightarrow> string \<Rightarrow> job_object error + workflow" where
  "Workflow workflow_id' definition_arg schedule_interval' =
     (case parse_definition definition_arg of
        Inl e \<Rightarrow> Inl e
      | Inr d \<Rightarrow> Inr \<lparr>wf_definition = d, schedule_interval = schedule_interval',
                       workflow_id = workflow_id'\<rparr>)"

definition build_sequential_order :: "workflow \<Rightarrow> job_object error + job_object list" where
  "build_sequential_order self = sequential_order (wf_definition self)"

text \<open>
  \<^verbatim>\<open>
  class JobContext(typing.NamedTuple):
      runtime: typing.Optional[dt.datetime]
      runtime_as_str: typing.Optional[str]
      workflow: typing.Optional['Workflow']

  def _parse_runtime_str(self, runtime: str):
      for format in self.RUNTIME_FORMATS:
          try:
              return dt.datetime.strptime(runtime, format)
          except ValueError:
              pass
      raise ValueError("Unable to parse 'run_time' %r" % rt)
  \<close>
  The last line reads the variable \<^verbatim>\<open>rt\<close> to build the message of the \<^verbatim>\<open>ValueError\<close>. No
  \<^verbatim>\<open>rt\<close> is bound in the function, in the module or among the builtins, so the read raises
  \<^verbatim>\<open>NameError\<close> and the \<^verbatim>\<open>ValueError\<close> is never built.
\<close>

fun parse_runtime_formats :: "environment \<Rightarrow> string \<Rightarrow> string list \<Rightarrow> 'a error + datetime" where
  "parse_runtime_formats env runtime [] = Inl (NameError ''rt'')"
| "parse_runtime_formats env runtime (format # formats) =
     (case strptime env runtime format of
        Some d \<Rightarrow> Inr d
      | None \<Rightarrow> parse_runtime_formats env runtime formats)"

definition parse_runtime_str :: "environment \<Rightarrow> string \<Rightarrow> 'a error + datetime" where
  "parse_runtime_str env runtime = parse_runtime_formats env runtime RUNTIME_FORMATS"

record job_context =
  runtime :: datetime
  runtime_as_str :: string
  workflow :: workflow

text \<open>
  \<^verbatim>\<open>
  def _make_job_context(self, runtime_raw):
      if isinstance(runtime_raw, str):
          runtime_as_str = runtime_raw
          runtime = self._parse_runtime_str(runtime_raw)
      else:
          runtime = runtime_raw or dt.datetime.now()
          runtime_as_str = runtime.strftime(self.RUNTIME_FORMATS[0])

      return JobContext(
          workflow=self,
          runtime=runtime,
          runtime_as_str=runtime_as_str,
      )
  \<close>
  The argument is \<^verbatim>\<open>None\<close>, a string or a \<^verbatim>\<open>datetime\<close> (\<^verbatim>\<open>typing.Union[dt.datetime, str,
  None]\<close>); a \<^verbatim>\<open>datetime\<close> is never false, so \<^verbatim>\<open>runtime_raw or dt.datetime.now()\<close> reads the
  clock for \<^verbatim>\<open>None\<close> only.
\<close>

datatype runtime_arg = RuntimeNone | RuntimeStr string | RuntimeDatetime datetime

definition make_job_context ::
    "environment \<Rightarrow> workflow \<Rightarrow> runtime_arg \<Rightarrow> job_object error + job_context" where
  "make_job_context env self runtime_raw =
     (case runtime_raw of
        RuntimeStr s \<Rightarrow>
          (case parse_runtime_str env s of
             Inl e \<Rightarrow> Inl e
           | Inr r \<Rightarrow> Inr \<lparr>runtime = r, runtime_as_str = s, workflow = self\<rparr>)
      | RuntimeNone \<Rightarrow>
          (let r = now env
           in Inr \<lparr>runtime = r, runtime_as_str = strftime env r (RUNTIME_FORMATS ! 0),
                   workflow = self\<rparr>)
      | RuntimeDatetime d \<Rightarrow>
          Inr \<lparr>runtime = d, runtime_as_str = strftime env d (RUNTIME_FORMATS ! 0),
               workflow = self\<rparr>)"

text \<open>
  \<^verbatim>\<open>
  def _execute_job(self, job, context):
      if not isinstance(job, Job):
          logger.debug("Please, inherit your job %r from `bigflow.Job` class", job)
      if hasattr(job, 'execute'):
          job.execute(context)
      else:
          logger.warn("Old bigflow.Job api is used: please change `run(runtime) => execute(context)`)")
          raise Exception("XXX")
          # fallback to old api
          job.run(context.runtime_as_str)
  \<close>
  The function is handed a node of the sequential order by \<^verbatim>\<open>run\<close> and what
  \<^verbatim>\<open>find_job\<close> returns by \<^verbatim>\<open>run_job\<close>. The effect on the world is the list of the
  calls of \<^verbatim>\<open>execute\<close> made so far, each with the object and the context it got; a
  function that runs jobs takes the list and returns it with its result, also when it
  raises. Logging is left out.
\<close>

fun has_execute_attribute :: "job_object \<Rightarrow> bool" where   \<comment> \<open>\<^verbatim>\<open>hasattr(job, 'execute')\<close>\<close>
  "has_execute_attribute (WorkflowJob job name) = False"
| "has_execute_attribute (JobObject j) = has_execute j"

type_synonym execute_calls = "(job_object \<times> job_context) list"

type_synonym behaviour = "job_object \<Rightarrow> job_context \<Rightarrow> job_object error option"

definition execute_job ::
    "behaviour \<Rightarrow> job_object \<Rightarrow> job_context \<Rightarrow> execute_calls \<Rightarrow>
       (job_object error + unit) \<times> execute_calls" where
  "execute_job behaviour job context calls =
     (if has_execute_attribute job
      then (case behaviour job context of
              None \<Rightarrow> (Inr (), calls @ [(job, context)])
            | Some e \<Rightarrow> (Inl e, calls @ [(job, context)]))
      else (Inl (Exception ''XXX''), calls))"

text \<open>
  \<^verbatim>\<open>
  def run(self, runtime: typing.Union[dt.datetime, str, None] = None):
      context = self._make_job_context(runtime)
      for job in self.build_sequential_order():
          self._execute_job(job, context)

  def find_job(self, job_id):
      for job_wrapper in self.build_sequential_order():
          if job_wrapper.job.id == job_id:
              return job_wrapper.job
      raise ValueError(f'Job {job_id} not found.')

  def run_job(self, job_id: str, runtime: typing.Union[dt.datetime, str, None] = None):
      context = self._make_job_context(runtime)
      self._execute_job(self.find_job(job_id), context)
  \<close>
  \<open>execute_jobs\<close> is the loop of \<^verbatim>\<open>run\<close>, \<open>find_job_loop\<close> the loop of \<^verbatim>\<open>find_job\<close>,
  which reads \<^verbatim>\<open>job_wrapper.job\<close> and then the \<^verbatim>\<open>id\<close> of what it got.
\<close>

fun execute_jobs ::
    "behaviour \<Rightarrow> job_object list \<Rightarrow> job_context \<Rightarrow> execute_calls \<Rightarrow>
       (job_object error + unit) \<times> execute_calls" where
  "execute_jobs behaviour [] context calls = (Inr (), calls)"
| "execute_jobs behaviour (job # jobs) context calls =
     (case execute_job behaviour job context calls of
        (Inl e, calls') \<Rightarrow> (Inl e, calls')
      | (Inr _, calls') \<Rightarrow> execute_jobs behaviour jobs context calls')"

definition run ::
    "behaviour \<Rightarrow> environment \<Rightarrow> workflow \<Rightarrow> runtime_arg \<Rightarrow> execute_calls \<Rightarrow>
       (job_object error + unit) \<times> execute_calls" where
  "run behaviour env self runtime_arg calls =
     (case make_job_context env self runtime_arg of
        Inl e \<Rightarrow> (Inl e, calls)
      | Inr context \<Rightarrow>
          (case build_sequential_order self of
             Inl e \<Rightarrow> (Inl e, calls)
           | Inr jobs \<Rightarrow> execute_jobs behaviour jobs context calls))"

fun find_job_loop :: "job_object list \<Rightarrow> string \<Rightarrow> job_object error + job_object" where
  "find_job_loop [] job_id' = Inl (ValueError (''Job '' @ job_id' @ '' not found.''))"
| "find_job_loop (job_wrapper # job_wrappers) job_id' =
     (case get_job job_wrapper of
        Inl e \<Rightarrow> Inl e
      | Inr job \<Rightarrow>
          (case get_id job of
             Inl e \<Rightarrow> Inl e
           | Inr i \<Rightarrow>
               if i = job_id' then Inr job else find_job_loop job_wrappers job_id'))"

definition find_job :: "workflow \<Rightarrow> string \<Rightarrow> job_object error + job_object" where
  "find_job self job_id' =
     (case build_sequential_order self of
        Inl e \<Rightarrow> Inl e
      | Inr job_wrappers \<Rightarrow> find_job_loop job_wrappers job_id')"

definition run_job ::
    "behaviour \<Rightarrow> environment \<Rightarrow> workflow \<Rightarrow> string \<Rightarrow> runtime_arg \<Rightarrow> execute_calls \<Rightarrow>
       (job_object error + unit) \<times> execute_calls" where
  "run_job behaviour env self job_id' runtime_arg calls =
     (case make_job_context env self runtime_arg of
        Inl e \<Rightarrow> (Inl e, calls)
      | Inr context \<Rightarrow>
          (case find_job self job_id' of
             Inl e \<Rightarrow> (Inl e, calls)
           | Inr job \<Rightarrow> execute_job behaviour job context calls))"



section \<open>Examples\<close>

text \<open>
  Three jobs with \<^verbatim>\<open>execute\<close>, one of the old interface, a second job with the
  \<^verbatim>\<open>id\<close> of \<open>job_b\<close>, and the workflow \<^verbatim>\<open>Workflow('w', [job_a, job_b, job_c])\<close>, whose
  jobs are wrapped and named 0, 1, 2.
\<close>

definition job_a :: job where "job_a = \<lparr>job_ref = 1, job_id = ''a'', has_execute = True\<rparr>"
definition job_b :: job where "job_b = \<lparr>job_ref = 2, job_id = ''b'', has_execute = True\<rparr>"
definition job_c :: job where "job_c = \<lparr>job_ref = 3, job_id = ''c'', has_execute = True\<rparr>"
definition job_old :: job where "job_old = \<lparr>job_ref = 4, job_id = ''old'', has_execute = False\<rparr>"

definition example_graph :: "job_object job_graph" where
  "example_graph =
     [(WorkflowJob (JobObject job_a) (Index 0), [WorkflowJob (JobObject job_b) (Index 1)]),
      (WorkflowJob (JobObject job_b) (Index 1), [WorkflowJob (JobObject job_c) (Index 2)])]"

definition example_workflow :: workflow where
  "example_workflow = \<lparr>wf_definition = \<lparr>d_job_graph = example_graph\<rparr>,
     schedule_interval = ''@daily'', workflow_id = ''w''\<rparr>"

definition failing_behaviour :: behaviour where
  "failing_behaviour job context =
     (if job = JobObject job_b then Some (JobFailure ''boom'') else None)"


text \<open>
  An environment for the examples. The library's answers are listed for the strings and
  timestamps the examples use (\<^verbatim>\<open>"2020-06-27"\<close> does not match the first format, for want
  of a time, and \<^verbatim>\<open>"2020-06-27 15:00:00"\<close> does not match the second); elsewhere the table
  says that a string does not parse, and renders nothing. 737603 is the ordinal of
  2020-06-27. The clock stands at 15:00 of that day, the local zone is UTC; in the second
  environment the zone is two hours ahead of UTC, in the third five hours behind.
\<close>

definition example_day :: datetime where
  "example_day = \<lparr>ordinal = 737603, hour = 0, minute = 0, second = 0, microsecond = 0\<rparr>"

definition example_afternoon :: datetime where
  "example_afternoon = \<lparr>ordinal = 737603, hour = 15, minute = 0, second = 0, microsecond = 0\<rparr>"

definition example_strptime :: "string \<Rightarrow> string \<Rightarrow> datetime option" where
  "example_strptime s format =
     (if s = ''2020-06-27 15:00:00'' \<and> format = ''%Y-%m-%d %H:%M:%S'' then Some example_afternoon
      else if s = ''2020-06-27'' \<and> format = ''%Y-%m-%d'' then Some example_day
      else None)"

definition example_strftime :: "datetime \<Rightarrow> string \<Rightarrow> string" where
  "example_strftime d format =
     (if d = example_afternoon \<and> format = ''%Y-%m-%d %H:%M:%S'' then ''2020-06-27 15:00:00''
      else if d = example_day \<and> format = ''%Y-%m-%d %H:%M:%S'' then ''2020-06-27 00:00:00''
      else [])"

definition example_env :: environment where
  "example_env = \<lparr>strptime = example_strptime, strftime = example_strftime,
     now = example_afternoon, local_utcoffset = Timedelta 0\<rparr>"

definition example_env_east :: environment where
  "example_env_east = example_env\<lparr>local_utcoffset := timedelta_seconds 7200\<rparr>"

definition example_env_west :: environment where
  "example_env_west = example_env\<lparr>local_utcoffset := timedelta_seconds (- 18000)\<rparr>"

definition example_start_time :: datetime where
  "example_start_time =
     \<lparr>ordinal = 737603, hour = 15, minute = 30, second = 45, microsecond = 123\<rparr>"

definition example_early_start_time :: datetime where
  "example_early_start_time =
     \<lparr>ordinal = 737603, hour = 1, minute = 15, second = 0, microsecond = 0\<rparr>"

definition first_hour :: datetime where   \<comment> \<open>0001-01-01 00:30:00\<close>
  "first_hour = \<lparr>ordinal = 1, hour = 0, minute = 30, second = 0, microsecond = 0\<rparr>"

definition no_failure :: behaviour where
  "no_failure job context = None"

text \<open>The workflow \<^verbatim>\<open>Workflow('old', [job_old])\<close> of one job of the old interface.\<close>

definition example_old_workflow :: workflow where
  "example_old_workflow =
     \<lparr>wf_definition = \<lparr>d_job_graph = [(WorkflowJob (JobObject job_old) (Index 0), [])]\<rparr>,
      schedule_interval = ''@daily'', workflow_id = ''old''\<rparr>"


text \<open>
  The definition \<^verbatim>\<open>Definition([job_a, job_b, job_c])\<close>, whose nodes are the jobs
  themselves (a list given to \<^verbatim>\<open>Definition\<close> is not wrapped), and the workflow
  \<^verbatim>\<open>Workflow('bare', Definition([job_a, job_b, job_c]))\<close>.
\<close>

definition example_bare_definition :: job_definition where
  "example_bare_definition =
     \<lparr>d_job_graph = [(JobObject job_a, [JobObject job_b]), (JobObject job_b, [JobObject job_c])]\<rparr>"

definition example_bare_workflow :: workflow where
  "example_bare_workflow =
     \<lparr>wf_definition = example_bare_definition,
      schedule_interval = ''@daily'', workflow_id = ''bare''\<rparr>"

text \<open>
  The definition \<^verbatim>\<open>Definition({job_a: [job_b, job_c], job_b: [job_c]})\<close>, whose jobs are
  wrapped and named by their \<^verbatim>\<open>id\<close>, and the workflow of it.
\<close>

definition example_dict_definition :: job_definition where
  "example_dict_definition =
     \<lparr>d_job_graph =
        [(WorkflowJob (JobObject job_a) (Name ''a''),
            [WorkflowJob (JobObject job_b) (Name ''b''), WorkflowJob (JobObject job_c) (Name ''c'')]),
         (WorkflowJob (JobObject job_b) (Name ''b''),
            [WorkflowJob (JobObject job_c) (Name ''c'')])]\<rparr>"

definition example_dict_workflow :: workflow where
  "example_dict_workflow =
     \<lparr>wf_definition = example_dict_definition,
      schedule_interval = ''@daily'', workflow_id = ''dict''\<rparr>"

section \<open>Graphs as relations\<close>

text \<open>
  The edges of a graph: \<open>(job, dep)\<close> when \<open>dep\<close> stands in the dependency list stored
  under the key \<open>job\<close>; then \<open>job\<close> is a parent of \<open>dep\<close>. The nodes are the keys and
  the ends of the edges. A graph is acyclic when no node reaches itself along the edges
  (\<^const>\<open>acyclic\<close>).
\<close>

definition graph_edges :: "'a job_graph \<Rightarrow> ('a \<times> 'a) set" where
  "graph_edges g = {(job, dep). \<exists>deps. map_of g job = Some deps \<and> dep \<in> set deps}"

definition graph_nodes :: "'a job_graph \<Rightarrow> 'a set" where
  "graph_nodes g = fst ` set g \<union> Range (graph_edges g)"

section \<open>The validator accepts exactly the acyclic graphs\<close>


lemma validate_job_cases:
  assumes "validate_job g job (visited, stack) = Inr (v', s')"
  obtains (seen) "job \<notin> stack" "job \<in> visited" "v' = visited" "s' = stack"
  | (leaf) "job \<notin> stack" "job \<notin> visited" "map_of g job = None" "v' = insert job visited" "s' = stack"
  | (node) deps s1 where "job \<notin> stack" "job \<notin> visited" "map_of g job = Some deps"
      "validate_jobs g deps (insert job visited, insert job stack) = Inr (v', s1)" "s' = s1 - {job}"
  using assms
  by (auto simp: validate_job.simps split: if_splits option.splits sum.splits)

lemma validate_jobs_Cons_Inr:
  assumes "validate_jobs g (dep # deps) st = Inr st'"
  obtains st1 where "validate_job g dep st = Inr st1" "validate_jobs g deps st1 = Inr st'"
  using assms by (auto split: sum.splits)

lemma validate_frame:
  "validate_job g job st = Inr st' \<Longrightarrow> snd st' = snd st \<and> fst st \<subseteq> fst st'"
  "validate_jobs g deps st = Inr st' \<Longrightarrow> snd st' = snd st \<and> fst st \<subseteq> fst st'"
proof (induction g job st and g deps st arbitrary: st' and st' rule: validate_job_validate_jobs.induct)
  case (1 g job visited stack)
  obtain v' s' where st': "st' = (v', s')" by (cases st')
  from 1(2)[unfolded st'] show ?case
  proof (cases rule: validate_job_cases)
    case (node deps s1)
    from 1(1)[OF node(1,2,3,4)] node(1,5) st' show ?thesis by auto
  qed (auto simp: st')
next
  case (2 g st)
  then show ?case by simp
next
  case (3 g dep deps st)
  from 3(3) obtain st1 where a: "validate_job g dep st = Inr st1" and b: "validate_jobs g deps st1 = Inr st'"
    by (rule validate_jobs_Cons_Inr)
  from 3(1)[OF a] 3(2)[OF a b] show ?case by auto
qed

lemma validate_stack_restored:
  "validate_job g job st = Inr st' \<Longrightarrow> snd st' = snd st"
  "validate_jobs g deps st = Inr st' \<Longrightarrow> snd st' = snd st"
  by (simp_all add: validate_frame)

lemma validate_visited_mono:
  "validate_job g job st = Inr st' \<Longrightarrow> fst st \<subseteq> fst st'"
  "validate_jobs g deps st = Inr st' \<Longrightarrow> fst st \<subseteq> fst st'"
  by (simp_all add: validate_frame)

text \<open>An error names a node on a cycle, when every node of the stack reaches the job.\<close>

lemma validate_error_on_cycle:
  "validate_job g job st = Inl e \<Longrightarrow> (\<forall>x\<in>snd st. (x, job) \<in> (graph_edges g)\<^sup>+) \<Longrightarrow>
     \<exists>n. e = InvalidJobGraph n \<and> (n, n) \<in> (graph_edges g)\<^sup>+"
  "validate_jobs g deps st = Inl e \<Longrightarrow> (\<forall>x\<in>snd st. \<forall>d\<in>set deps. (x, d) \<in> (graph_edges g)\<^sup>+) \<Longrightarrow>
     \<exists>n. e = InvalidJobGraph n \<and> (n, n) \<in> (graph_edges g)\<^sup>+"
proof (induction g job st and g deps st arbitrary: e and e rule: validate_job_validate_jobs.induct)
  case (1 g job visited stack)
  show ?case
  proof (cases "job \<in> stack")
    case True
    with 1(2,3) show ?thesis by (auto simp: validate_job.simps)
  next
    case False
    with 1(2) obtain deps where nv: "job \<notin> visited" and d: "map_of g job = Some deps"
      and r: "validate_jobs g deps (insert job visited, insert job stack) = Inl e"
      by (auto simp: validate_job.simps split: if_splits option.splits sum.splits)
    have "\<forall>x\<in>insert job stack. \<forall>dep\<in>set deps. (x, dep) \<in> (graph_edges g)\<^sup>+"
    proof (intro ballI)
      fix x dep assume x: "x \<in> insert job stack" and dep: "dep \<in> set deps"
      from d dep have e: "(job, dep) \<in> graph_edges g" by (auto simp: graph_edges_def)
      from x 1(3) have "x = job \<or> (x, job) \<in> (graph_edges g)\<^sup>+" by auto
      with e show "(x, dep) \<in> (graph_edges g)\<^sup>+" by (auto intro: trancl_into_trancl)
    qed
    with 1(1)[OF False nv d r] show ?thesis by simp
  qed
next
  case (2 g st)
  then show ?case by simp
next
  case (3 g dep deps st)
  show ?case
  proof (cases "validate_job g dep st")
    case (Inl e')
    with 3(3) have "e' = e" by simp
    with Inl 3(1)[of e] 3(4) show ?thesis by auto
  next
    case (Inr st1)
    with 3(3) have r: "validate_jobs g deps st1 = Inl e" by simp
    from validate_stack_restored(1)[OF Inr] have "snd st1 = snd st" .
    with 3(2)[OF Inr r] 3(4) show ?thesis by auto
  qed
qed

text \<open>The finished nodes: visited and no longer on the stack.\<close>

definition finished_ok :: "'a job_graph \<Rightarrow> 'a set \<Rightarrow> bool" where
  "finished_ok g B \<longleftrightarrow> (\<forall>x\<in>B. \<forall>y. (x, y) \<in> graph_edges g \<longrightarrow> y \<in> B) \<and> (\<forall>x\<in>B. (x, x) \<notin> (graph_edges g)\<^sup>+)"

lemma finished_ok_rtrancl:
  assumes "finished_ok g B" "(x, y) \<in> (graph_edges g)\<^sup>*" "x \<in> B"
  shows "y \<in> B"
  using assms(2,3,1) by (induction rule: rtrancl_induct) (auto simp: finished_ok_def)

lemma finished_ok_insert:
  assumes ok: "finished_ok g B" and succ: "\<And>y. (job, y) \<in> graph_edges g \<Longrightarrow> y \<in> B" and nin: "job \<notin> B"
  shows "finished_ok g (insert job B)"
proof -
  have "(job, job) \<notin> (graph_edges g)\<^sup>+"
  proof
    assume "(job, job) \<in> (graph_edges g)\<^sup>+"
    then obtain y where "(job, y) \<in> graph_edges g" "(y, job) \<in> (graph_edges g)\<^sup>*"
      by (meson tranclD)
    with succ finished_ok_rtrancl[OF ok] have "job \<in> B" by blast
    with nin show False by simp
  qed
  with ok succ show ?thesis by (auto simp: finished_ok_def)
qed

lemma validate_finished:
  "validate_job g job st = Inr st' \<Longrightarrow> finished_ok g (fst st - snd st) \<Longrightarrow>
     finished_ok g (fst st' - snd st) \<and> job \<in> fst st' - snd st"
  "validate_jobs g deps st = Inr st' \<Longrightarrow> finished_ok g (fst st - snd st) \<Longrightarrow>
     finished_ok g (fst st' - snd st) \<and> set deps \<subseteq> fst st' - snd st"
proof (induction g job st and g deps st arbitrary: st' and st' rule: validate_job_validate_jobs.induct)
  case (1 g job visited stack)
  obtain v' s' where st': "st' = (v', s')" by (cases st')
  from 1(2)[unfolded st'] show ?case
  proof (cases rule: validate_job_cases)
    case seen
    with 1(3) st' show ?thesis by simp
  next
    case leaf
    have "finished_ok g (insert job (visited - stack))"
    proof (rule finished_ok_insert)
      show "finished_ok g (visited - stack)" using 1(3) by simp
      show "\<And>y. (job, y) \<in> graph_edges g \<Longrightarrow> y \<in> visited - stack"
        using leaf(3) by (simp add: graph_edges_def)
      show "job \<notin> visited - stack" using leaf(2) by simp
    qed
    moreover have "insert job visited - stack = insert job (visited - stack)"
      using leaf(1) by auto
    ultimately show ?thesis using leaf st' by simp
  next
    case (node deps s1)
    have eq: "insert job visited - insert job stack = visited - stack"
      using node(2) by auto
    from 1(1)[OF node(1,2,3,4)] 1(3) eq
    have ok: "finished_ok g (v' - insert job stack)" and sub: "set deps \<subseteq> v' - insert job stack"
      by simp_all
    from validate_visited_mono(2)[OF node(4)] have jv: "job \<in> v'" by simp
    have "finished_ok g (insert job (v' - insert job stack))"
    proof (rule finished_ok_insert[OF ok])
      show "\<And>y. (job, y) \<in> graph_edges g \<Longrightarrow> y \<in> v' - insert job stack"
        using node(3) sub by (auto simp: graph_edges_def)
      show "job \<notin> v' - insert job stack" by simp
    qed
    moreover have "insert job (v' - insert job stack) = v' - stack"
      using jv node(1) by auto
    ultimately show ?thesis using st' jv node(1) by simp
  qed
next
  case (2 g st)
  then show ?case by simp
next
  case (3 g dep deps st)
  from 3(3) obtain st1 where a: "validate_job g dep st = Inr st1" and b: "validate_jobs g deps st1 = Inr st'"
    by (rule validate_jobs_Cons_Inr)
  from validate_stack_restored(1)[OF a] have s1: "snd st1 = snd st" .
  from 3(1)[OF a 3(4)] have ok1: "finished_ok g (fst st1 - snd st)" and d: "dep \<in> fst st1 - snd st" by simp_all
  from 3(2)[OF a b] ok1 s1 have ok2: "finished_ok g (fst st' - snd st)" and ds: "set deps \<subseteq> fst st' - snd st"
    by simp_all
  from validate_visited_mono(2)[OF b] d have "dep \<in> fst st' - snd st" by auto
  with ok2 ds show ?case by simp
qed

lemma validate_ok_acyclic:
  assumes "validate g = Inr ()"
  shows "acyclic (graph_edges g)"
proof -
  from assms obtain st' where r: "validate_jobs g (map fst g) ({}, {}) = Inr st'"
    by (auto simp: validate_def validate_if_not_cyclic_def split: sum.splits)
  have "finished_ok g (fst ({}, {}) - snd ({}::'a set, {}::'a set))" by (simp add: finished_ok_def)
  from validate_finished(2)[OF r this] have ok: "finished_ok g (fst st')" and keys: "fst ` set g \<subseteq> fst st'"
    by simp_all
  show ?thesis
  proof (rule acyclicI, rule allI, rule notI)
    fix x assume c: "(x, x) \<in> (graph_edges g)\<^sup>+"
    then obtain y where "(x, y) \<in> graph_edges g" by (meson tranclD)
    then have "x \<in> fst ` set g" by (auto simp: graph_edges_def dest: map_of_SomeD intro: rev_image_eqI)
    with keys ok c show False by (auto simp: finished_ok_def)
  qed
qed

lemma validate_error_cycle:
  assumes "validate g = Inl e"
  shows "\<exists>n. e = InvalidJobGraph n \<and> (n, n) \<in> (graph_edges g)\<^sup>+"
proof -
  from assms have "validate_jobs g (map fst g) ({}, {}) = Inl e"
    by (auto simp: validate_def validate_if_not_cyclic_def split: sum.splits)
  from validate_error_on_cycle(2)[OF this] show ?thesis by simp
qed

text \<open>
  Claim C2. \<^verbatim>\<open>JobGraphValidator.validate\<close> completes without raising if and only if the
  graph is acyclic, and on every graph with a cycle it raises the cyclic-dependency error
  \<^verbatim>\<open>InvalidJobGraph\<close> naming a node that lies on a cycle.
\<close>

theorem validate_iff_acyclic:
  "(validate g = Inr () \<longleftrightarrow> acyclic (graph_edges g)) \<and>
   (\<not> acyclic (graph_edges g) \<longrightarrow>
      (\<exists>n. validate g = Inl (InvalidJobGraph n) \<and> (n, n) \<in> (graph_edges g)\<^sup>+))"
proof -
  have a: "validate g = Inr () \<Longrightarrow> acyclic (graph_edges g)" by (rule validate_ok_acyclic)
  have b: "\<exists>n. validate g = Inl (InvalidJobGraph n) \<and> (n, n) \<in> (graph_edges g)\<^sup>+"
    if "validate g \<noteq> Inr ()"
  proof -
    from that obtain e where e: "validate g = Inl e" by (cases "validate g") auto
    from validate_error_cycle[OF e] e show ?thesis by auto
  qed
  have c: "acyclic (graph_edges g) \<Longrightarrow> validate g = Inr ()"
    using b by (auto simp: acyclic_def)
  from a b c show ?thesis by blast
qed

theorem validate_iff_acyclic_witness:
  "validate [(1::nat, [2, 3]), (2, [4]), (3, [4])] = Inr () \<and>
   acyclic (graph_edges [(1::nat, [2, 3]), (2, [4]), (3, [4])]) \<and>
   validate [(1::nat, [2]), (2, [3]), (3, [2])] = Inl (InvalidJobGraph 2) \<and>
   (2, 2) \<in> (graph_edges [(1::nat, [2]), (2, [3]), (3, [2])])\<^sup>+"
proof -
  have ok: "validate [(1::nat, [2, 3]), (2, [4]), (3, [4])] = Inr ()"
    by (simp add: validate_def validate_if_not_cyclic_def validate_job.simps)
  have bad: "validate [(1::nat, [2]), (2, [3]), (3, [2])] = Inl (InvalidJobGraph 2)"
    by (simp add: validate_def validate_if_not_cyclic_def validate_job.simps)
  from ok validate_iff_acyclic[of "[(1::nat, [2, 3]), (2, [4]), (3, [4])]"]
  have ac: "acyclic (graph_edges [(1::nat, [2, 3]), (2, [4]), (3, [4])])" by simp
  from bad validate_iff_acyclic[of "[(1::nat, [2]), (2, [3]), (3, [2])]"]
  have "(2, 2) \<in> (graph_edges [(1::nat, [2]), (2, [3]), (3, [2])])\<^sup>+" by auto
  with ok bad ac show ?thesis by simp
qed

section \<open>The parental map holds every node and every edge\<close>

text \<open>
  \<open>od_ensure\<close> is the step \<^verbatim>\<open>if k not in parental_map: parental_map[k] = []\<close>.
  \<open>fill_post\<close> relates the state before a call to the state after it: the jobs visited by
  the call are keys of the graph, they and their dependencies became keys of the parental
  map, and the edges out of them were recorded, reversed.
\<close>

definition od_ensure :: "'a job_graph \<Rightarrow> 'a \<Rightarrow> 'a job_graph" where
  "od_ensure pm k = (if od_contains pm k then pm else AList.update k [] pm)"

lemma keys_od_ensure: "fst ` set (od_ensure pm k) = insert k (fst ` set pm)"
  by (auto simp: od_ensure_def od_contains_def dom_update map_of_eq_None_iff)

lemma edges_od_ensure: "graph_edges (od_ensure pm k) = graph_edges pm"
  by (auto simp: od_ensure_def od_contains_def graph_edges_def update_conv' split: if_splits)

lemma distinct_od_ensure: "distinct (map fst pm) \<Longrightarrow> distinct (map fst (od_ensure pm k))"
  by (simp add: od_ensure_def distinct_update)

lemma keys_od_append: "fst ` set (od_append pm k x) = fst ` set pm"
  by (simp add: od_append_def dom_map_entry)

lemma distinct_od_append: "distinct (map fst pm) \<Longrightarrow> distinct (map fst (od_append pm k x))"
  by (simp add: od_append_def distinct_map_entry)

lemma edges_od_append:
  "k \<in> fst ` set pm \<Longrightarrow> graph_edges (od_append pm k x) = insert (k, x) (graph_edges pm)"
  by (auto simp: od_append_def graph_edges_def map_of_map_entry map_of_eq_None_iff
      split: if_splits option.splits)

definition new_edges :: "'a job_graph \<Rightarrow> 'a set \<Rightarrow> ('a \<times> 'a) set" where
  "new_edges g N = {(d, k). k \<in> N \<and> (k, d) \<in> graph_edges g}"

definition fill_post ::
  "'a job_graph \<Rightarrow> 'a job_graph \<times> 'a set \<Rightarrow> 'a job_graph \<times> 'a set \<Rightarrow> 'a set \<Rightarrow> ('a \<times> 'a) set \<Rightarrow> bool" where
  "fill_post g st st' K X \<longleftrightarrow>
     snd st \<subseteq> snd st' \<and> snd st' \<subseteq> snd st \<union> fst ` set g \<and>
     fst ` set (fst st') = fst ` set (fst st) \<union> K \<union> (snd st' - snd st) \<union> graph_edges g `` (snd st' - snd st) \<and>
     graph_edges (fst st') = graph_edges (fst st) \<union> X \<union> new_edges g (snd st' - snd st) \<and>
     (distinct (map fst (fst st)) \<longrightarrow> distinct (map fst (fst st')))"

lemma graph_edges_Image: "map_of g job = Some deps \<Longrightarrow> graph_edges g `` {job} = set deps"
  by (auto simp: graph_edges_def)

lemma new_edges_insert:
  "map_of g job = Some deps \<Longrightarrow> new_edges g (insert job N) = set deps \<times> {job} \<union> new_edges g N"
  by (auto simp: new_edges_def graph_edges_def)

lemma new_edges_Un: "new_edges g (A \<union> B) = new_edges g A \<union> new_edges g B"
  by (auto simp: new_edges_def)

lemma fill_post_node:
  assumes d: "map_of g job = Some deps" and nv: "job \<notin> visited"
    and q: "fill_post g (od_ensure pm job, insert job visited) st' (set deps) (set deps \<times> {job})"
  shows "fill_post g (pm, visited) st' {} {} \<and> job \<in> snd st'"
proof -
  let ?N1 = "snd st' - insert job visited"
  from q have sub: "insert job visited \<subseteq> snd st'" by (simp add: fill_post_def)
  with nv have N: "snd st' - visited = insert job ?N1" by auto
  from d have jk: "job \<in> fst ` set g" by (metis map_of_eq_None_iff option.distinct(1))
  have "graph_edges g `` insert job ?N1 = set deps \<union> graph_edges g `` ?N1"
    using graph_edges_Image[OF d] by auto
  with q N new_edges_insert[OF d, of ?N1] sub jk show ?thesis
    unfolding fill_post_def
    by (simp add: keys_od_ensure edges_od_ensure distinct_od_ensure) blast
qed

lemma fill_post_step:
  assumes p: "fill_post g (od_append (od_ensure pm d) d job, visited) st2 {} {}"
    and q: "fill_post g st2 st' (set ds) (set ds \<times> {job})"
  shows "fill_post g (pm, visited) st' (set (d # ds)) (set (d # ds) \<times> {job})"
proof -
  let ?N2 = "snd st2 - visited" and ?N3 = "snd st' - snd st2"
  from p q have sub: "visited \<subseteq> snd st2" "snd st2 \<subseteq> snd st'" by (simp_all add: fill_post_def)
  then have N: "snd st' - visited = ?N2 \<union> ?N3" by auto
  have dk: "d \<in> fst ` set (od_ensure pm d)" by (simp add: keys_od_ensure)
  have k2: "fst ` set (fst st2) = insert d (fst ` set pm) \<union> ?N2 \<union> graph_edges g `` ?N2"
    using p by (simp add: fill_post_def keys_od_append keys_od_ensure)
  have e2: "graph_edges (fst st2) = insert (d, job) (graph_edges pm) \<union> new_edges g ?N2"
    using p by (simp add: fill_post_def edges_od_append[OF dk] edges_od_ensure)
  have d2: "distinct (map fst pm) \<longrightarrow> distinct (map fst (fst st2))"
    using p by (simp add: fill_post_def distinct_od_append distinct_od_ensure)
  have k3: "fst ` set (fst st') = fst ` set (fst st2) \<union> set ds \<union> ?N3 \<union> graph_edges g `` ?N3"
    and e3: "graph_edges (fst st') = graph_edges (fst st2) \<union> set ds \<times> {job} \<union> new_edges g ?N3"
    and d3: "distinct (map fst (fst st2)) \<longrightarrow> distinct (map fst (fst st'))"
    and b3: "snd st' \<subseteq> snd st2 \<union> fst ` set g"
    using q by (simp_all add: fill_post_def)
  from p have b2: "snd st2 \<subseteq> visited \<union> fst ` set g" by (simp add: fill_post_def)
  have K: "fst ` set (fst st') = fst ` set pm \<union> set (d # ds) \<union> (snd st' - visited) \<union> graph_edges g `` (snd st' - visited)"
    unfolding k3 k2 N by auto
  have E: "graph_edges (fst st') = graph_edges pm \<union> set (d # ds) \<times> {job} \<union> new_edges g (snd st' - visited)"
    unfolding e3 e2 N new_edges_Un by auto
  from K E d2 d3 sub b2 b3 show ?thesis
    unfolding fill_post_def by auto
qed

lemma fill_post_refl: "fill_post g st st {} {}"
  by (auto simp: fill_post_def new_edges_def)

lemma fill_spec:
  "fill_post g st (fill_parental_map g job st) {} {} \<and>
     (job \<in> fst ` set g \<longrightarrow> job \<in> snd (fill_parental_map g job st))"
  "fill_post g st (fill_dependencies g job deps st) (set deps) (set deps \<times> {job})"
proof (induction g job st and g job deps st rule: fill_parental_map_fill_dependencies.induct)
  case (1 g job parental_map visited)
  show ?case
  proof (cases "map_of g job")
    case None
    then have "job \<notin> fst ` set g" by (simp add: map_of_eq_None_iff)
    with None show ?thesis by (simp add: fill_parental_map.simps fill_post_refl)
  next
    case (Some deps)
    show ?thesis
    proof (cases "job \<in> visited")
      case True
      with Some show ?thesis by (simp add: fill_parental_map.simps fill_post_refl)
    next
      case False
      from 1[OF Some False]
      have "fill_post g (od_ensure parental_map job, insert job visited)
              (fill_parental_map g job (parental_map, visited)) (set deps) (set deps \<times> {job})"
        using Some False by (simp add: fill_parental_map.simps od_ensure_def)
      from fill_post_node[OF Some False this] show ?thesis by simp
    qed
  qed
next
  case (2 g job st)
  show ?case by (simp add: fill_post_refl)
next
  case (3 g job dependency deps parental_map visited)
  from 3(1) have p: "fill_post g (od_append (od_ensure parental_map dependency) dependency job, visited)
     (fill_parental_map g dependency (od_append (od_ensure parental_map dependency) dependency job, visited)) {} {}"
    by (simp add: od_ensure_def)
  from 3(2) have q: "fill_post g
     (fill_parental_map g dependency (od_append (od_ensure parental_map dependency) dependency job, visited))
     (fill_dependencies g job (dependency # deps) (parental_map, visited)) (set deps) (set deps \<times> {job})"
    by (simp add: od_ensure_def)
  from fill_post_step[OF p q] show ?case .
qed

lemma fill_jobs_spec:
  "fill_post g st (fill_jobs g jobs st) {} {} \<and> set jobs \<inter> fst ` set g \<subseteq> snd (fill_jobs g jobs st)"
proof (induction jobs arbitrary: st)
  case Nil
  show ?case by (simp add: fill_post_refl)
next
  case (Cons job jobs)
  let ?st1 = "fill_parental_map g job st"
  have p: "fill_post g st ?st1 {} {}" and j: "job \<in> fst ` set g \<longrightarrow> job \<in> snd ?st1"
    using fill_spec(1)[of g st job] by simp_all
  have q: "fill_post g ?st1 (fill_jobs g jobs ?st1) {} {}"
    and js: "set jobs \<inter> fst ` set g \<subseteq> snd (fill_jobs g jobs ?st1)"
    using Cons[of ?st1] by simp_all
  have N: "snd (fill_jobs g jobs ?st1) - snd st = (snd ?st1 - snd st) \<union> (snd (fill_jobs g jobs ?st1) - snd ?st1)"
    using p q by (auto simp: fill_post_def)
  have "fill_post g st (fill_jobs g jobs ?st1) {} {}"
    using p q unfolding fill_post_def N new_edges_Un by auto
  moreover have "job \<in> fst ` set g \<longrightarrow> job \<in> snd (fill_jobs g jobs ?st1)"
    using j q by (auto simp: fill_post_def)
  ultimately show ?case using js by auto
qed


lemma Domain_graph_edges: "Domain (graph_edges g) \<subseteq> fst ` set g"
  by (auto simp: graph_edges_def dest!: map_of_SomeD intro: rev_image_eqI)

lemma build_parental_map_spec:
  "fst ` set (build_parental_map g) = graph_nodes g"
  "graph_edges (build_parental_map g) = (graph_edges g)\<inverse>"
  "distinct (map fst (build_parental_map g))"
proof -
  let ?st' = "fill_jobs g (map fst g) ([], {})"
  from fill_jobs_spec[of g "([], {})" "map fst g"]
  have p: "fill_post g ([], {}) ?st' {} {}" and k: "fst ` set g \<subseteq> snd ?st'" by auto
  from p have "snd ?st' \<subseteq> fst ` set g" by (simp add: fill_post_def)
  with k have v: "snd ?st' = fst ` set g" by auto
  have ne: "new_edges g (fst ` set g) = (graph_edges g)\<inverse>"
    using Domain_graph_edges[of g] by (auto simp: new_edges_def)
  have e0: "graph_edges ([]::'a job_graph) = {}" by (simp add: graph_edges_def)
  have "graph_edges g `` fst ` set g = Range (graph_edges g)"
    using Domain_graph_edges[of g] by blast
  with p v show "fst ` set (build_parental_map g) = graph_nodes g"
    by (simp add: fill_post_def build_parental_map_def graph_nodes_def)
  from p v ne e0 show "graph_edges (build_parental_map g) = (graph_edges g)\<inverse>"
    by (simp add: fill_post_def build_parental_map_def)
  from p show "distinct (map fst (build_parental_map g))"
    by (simp add: fill_post_def build_parental_map_def)
qed


section \<open>The traversal of the parental map\<close>

lemma helper_cases:
  assumes "call_on_graph_node_helper c pm job (visited, s) = Inr (v', s')"
  obtains (seen) "job \<in> visited" "v' = visited" "s' = s"
  | (node) parents s1 where "job \<notin> visited" "map_of pm job = Some parents"
      "call_on_parents c pm parents (insert job visited, s) = Inr (v', s1)" "s' = c job parents s1"
  using assms
  by (auto simp: call_on_graph_node_helper.simps split: if_splits option.splits sum.splits)

lemma call_on_parents_Cons_Inr:
  assumes "call_on_parents c pm (p # ps) st = Inr st'"
  obtains st1 where "call_on_graph_node_helper c pm p st = Inr st1" "call_on_parents c pm ps st1 = Inr st'"
  using assms by (auto split: sum.splits)

definition parents_closed :: "'a job_graph \<Rightarrow> bool" where
  "parents_closed pm \<longleftrightarrow> Range (graph_edges pm) \<subseteq> fst ` set pm"

lemma call_no_error:
  "parents_closed pm \<Longrightarrow> job \<in> fst ` set pm \<Longrightarrow> \<exists>st'. call_on_graph_node_helper c pm job st = Inr st'"
  "parents_closed pm \<Longrightarrow> set parents \<subseteq> fst ` set pm \<Longrightarrow> \<exists>st'. call_on_parents c pm parents st = Inr st'"
proof (induction c pm job st and c pm parents st rule: call_on_graph_node_helper_call_on_parents.induct)
  case (1 c pm job visited s)
  show ?case
  proof (cases "job \<in> visited")
    case True
    then show ?thesis by (simp add: call_on_graph_node_helper.simps)
  next
    case False
    from 1(3) obtain parents where p: "map_of pm job = Some parents"
      by (metis map_of_eq_None_iff not_None_eq)
    with 1(2) have "set parents \<subseteq> fst ` set pm"
      by (auto simp: parents_closed_def graph_edges_def)
    from 1(1)[OF False p 1(2) this] obtain st' where
      "call_on_parents c pm parents (insert job visited, s) = Inr st'" by blast
    with False p show ?thesis
      by (cases st') (simp add: call_on_graph_node_helper.simps)
  qed
next
  case (2 c pm st)
  show ?case by simp
next
  case (3 c pm parent parents st)
  from 3(1)[OF 3(3)] 3(4) obtain st1 where a: "call_on_graph_node_helper c pm parent st = Inr st1"
    by auto
  from 3(2)[OF a 3(3)] 3(4) obtain st' where "call_on_parents c pm parents st1 = Inr st'" by auto
  with a show ?case by simp
qed

text \<open>Two consumers that agree through a map \<open>h\<close> of their states are called alike.\<close>

lemma call_simulation:
  "(\<forall>j ps s. h (c j ps s) = c' j ps (h s)) \<Longrightarrow>
     call_on_graph_node_helper c' pm job (fst st, h (snd st)) =
       map_sum id (apsnd h) (call_on_graph_node_helper c pm job st)"
  "(\<forall>j ps s. h (c j ps s) = c' j ps (h s)) \<Longrightarrow>
     call_on_parents c' pm parents (fst st, h (snd st)) =
       map_sum id (apsnd h) (call_on_parents c pm parents st)"
proof (induction c pm job st and c pm parents st rule: call_on_graph_node_helper_call_on_parents.induct)
  case (1 c pm job visited s)
  show ?case
  proof (cases "job \<in> visited")
    case True
    then show ?thesis by (simp add: call_on_graph_node_helper.simps)
  next
    case False
    show ?thesis
    proof (cases "map_of pm job")
      case None
      with False show ?thesis by (simp add: call_on_graph_node_helper.simps)
    next
      case (Some parents)
      from 1(1)[OF False Some 1(2)] 1(2) Some False show ?thesis
        by (auto simp: call_on_graph_node_helper.simps split: sum.splits)
    qed
  qed
next
  case (2 c pm st)
  show ?case by (cases st) simp
next
  case (3 c pm parent parents st)
  show ?case
  proof (cases "call_on_graph_node_helper c pm parent st")
    case (Inl e)
    with 3(1)[OF 3(3)] show ?thesis by simp
  next
    case (Inr st1)
    with 3(1)[OF 3(3)] 3(2)[OF Inr 3(3)] show ?thesis by (cases st1) simp
  qed
qed


definition trav_post :: "'a job_graph \<Rightarrow> 'a set \<times> 'a list \<Rightarrow> 'a set \<times> 'a list \<Rightarrow> bool" where
  "trav_post pm st st' \<longleftrightarrow>
     fst st \<subseteq> fst st' \<and> fst st' \<subseteq> fst st \<union> fst ` set pm \<and>
     set (snd st') \<subseteq> fst st' \<and> distinct (snd st') \<and>
     fst st' - set (snd st') = fst st - set (snd st) \<and> set (snd st) \<subseteq> set (snd st')"

lemma trav_post_trans:
  "trav_post pm st st1 \<Longrightarrow> trav_post pm st1 st2 \<Longrightarrow> trav_post pm st st2"
  unfolding trav_post_def by auto

lemma traversal_post:
  "call_on_graph_node_helper add_to_ordered_job pm job st = Inr st' \<Longrightarrow>
     set (snd st) \<subseteq> fst st \<Longrightarrow> distinct (snd st) \<Longrightarrow> trav_post pm st st' \<and> job \<in> fst st'"
  "call_on_parents add_to_ordered_job pm parents st = Inr st' \<Longrightarrow>
     set (snd st) \<subseteq> fst st \<Longrightarrow> distinct (snd st) \<Longrightarrow> trav_post pm st st' \<and> set parents \<subseteq> fst st'"
proof (induction "add_to_ordered_job :: 'a \<Rightarrow> 'a list \<Rightarrow> 'a list \<Rightarrow> 'a list" pm job st
    and "add_to_ordered_job :: 'a \<Rightarrow> 'a list \<Rightarrow> 'a list \<Rightarrow> 'a list" pm parents st
    arbitrary: st' and st' rule: call_on_graph_node_helper_call_on_parents.induct)
  case (1 pm job visited xs)
  obtain v' xs' where st': "st' = (v', xs')" by (cases st')
  from 1(2)[unfolded st'] show ?case
  proof (cases rule: helper_cases)
    case seen
    with 1(3,4) st' show ?thesis by (auto simp: trav_post_def)
  next
    case (node parents xs1)
    from 1(3) node(1) have jx: "job \<notin> set xs" by auto
    from 1(1)[OF node(1,2,3)] 1(3,4)
    have p: "trav_post pm (insert job visited, xs) (v', xs1)" by auto
    then have eq: "v' - set xs1 = insert job visited - set xs" by (simp add: trav_post_def)
    with jx have j1: "job \<in> v'" "job \<notin> set xs1" by auto
    from eq jx node(1) j1 have "v' - set (xs1 @ [job]) = visited - set xs" by auto
    moreover from node(2) have "job \<in> fst ` set pm"
      by (metis map_of_eq_None_iff option.distinct(1))
    ultimately show ?thesis using p j1
      unfolding st' node(4) add_to_ordered_job_def trav_post_def
      by auto
  qed
next
  case (2 pm st)
  then show ?case by (auto simp: trav_post_def)
next
  case (3 pm parent parents st)
  from 3(3) obtain st1 where a: "call_on_graph_node_helper add_to_ordered_job pm parent st = Inr st1"
    and b: "call_on_parents add_to_ordered_job pm parents st1 = Inr st'"
    by (rule call_on_parents_Cons_Inr)
  from 3(1)[OF a 3(4,5)] have p1: "trav_post pm st st1" and j: "parent \<in> fst st1" by simp_all
  from p1 have "set (snd st1) \<subseteq> fst st1" "distinct (snd st1)" by (simp_all add: trav_post_def)
  from 3(2)[OF a b this] have p2: "trav_post pm st1 st'" and ps: "set parents \<subseteq> fst st'" by simp_all
  from p2 j have "parent \<in> fst st'" by (auto simp: trav_post_def)
  with trav_post_trans[OF p1 p2] ps show ?case by simp
qed

definition parents_first :: "'a job_graph \<Rightarrow> 'a list \<Rightarrow> bool" where
  "parents_first pm xs \<longleftrightarrow>
     (\<forall>n\<in>set xs. \<forall>p. (n, p) \<in> graph_edges pm \<longrightarrow> p \<in> set (takeWhile (\<lambda>x. x \<noteq> n) xs))"

lemma parents_first_snoc:
  assumes "parents_first pm xs" "job \<notin> set xs" "\<And>p. (job, p) \<in> graph_edges pm \<Longrightarrow> p \<in> set xs"
  shows "parents_first pm (xs @ [job])"
proof -
  have a: "takeWhile (\<lambda>x. x \<noteq> n) (xs @ [job]) = takeWhile (\<lambda>x. x \<noteq> n) xs" if "n \<in> set xs" for n
    using that by (simp add: takeWhile_append1)
  have b: "takeWhile (\<lambda>x. x \<noteq> job) (xs @ [job]) = xs"
    using assms(2) by (subst takeWhile_append2) auto
  from assms a b show ?thesis
    unfolding parents_first_def by auto
qed

lemma traversal_parents_first:
  "call_on_graph_node_helper add_to_ordered_job pm job st = Inr st' \<Longrightarrow>
     set (snd st) \<subseteq> fst st \<Longrightarrow> distinct (snd st) \<Longrightarrow> acyclic (graph_edges pm) \<Longrightarrow>
     (\<forall>x\<in>fst st - set (snd st). (x, job) \<in> (graph_edges pm)\<^sup>*) \<Longrightarrow>
     parents_first pm (snd st) \<Longrightarrow> parents_first pm (snd st')"
  "call_on_parents add_to_ordered_job pm parents st = Inr st' \<Longrightarrow>
     set (snd st) \<subseteq> fst st \<Longrightarrow> distinct (snd st) \<Longrightarrow> acyclic (graph_edges pm) \<Longrightarrow>
     (\<forall>x\<in>fst st - set (snd st). \<forall>p\<in>set parents. (x, p) \<in> (graph_edges pm)\<^sup>*) \<Longrightarrow>
     parents_first pm (snd st) \<Longrightarrow> parents_first pm (snd st')"
proof (induction "add_to_ordered_job :: 'a \<Rightarrow> 'a list \<Rightarrow> 'a list \<Rightarrow> 'a list" pm job st
    and "add_to_ordered_job :: 'a \<Rightarrow> 'a list \<Rightarrow> 'a list \<Rightarrow> 'a list" pm parents st
    arbitrary: st' and st' rule: call_on_graph_node_helper_call_on_parents.induct)
  case (1 pm job visited xs)
  let ?R = "graph_edges pm"
  obtain v' xs' where st': "st' = (v', xs')" by (cases st')
  from 1(2)[unfolded st'] show ?case
  proof (cases rule: helper_cases)
    case seen
    with 1(7) st' show ?thesis by simp
  next
    case (node parents xs1)
    from 1(3) node(1) have jx: "job \<notin> set xs" by auto
    have sub: "set xs \<subseteq> insert job visited" using 1(3) by auto
    from traversal_post(2)[OF node(3)] sub 1(4)
    have p: "trav_post pm (insert job visited, xs) (v', xs1)" and ps: "set parents \<subseteq> v'" by simp_all
    then have eq: "v' - set xs1 = insert job visited - set xs" by (simp add: trav_post_def)
    with jx have j1: "job \<notin> set xs1" by auto
    have reach: "\<forall>x\<in>insert job visited - set xs. \<forall>p\<in>set parents. (x, p) \<in> ?R\<^sup>*"
    proof (intro ballI)
      fix x p assume x: "x \<in> insert job visited - set xs" and pp: "p \<in> set parents"
      from pp node(2) have e: "(job, p) \<in> ?R" by (auto simp: graph_edges_def)
      from x 1(6) have "(x, job) \<in> ?R\<^sup>*" by auto
      from this e show "(x, p) \<in> ?R\<^sup>*" by (rule rtrancl_into_rtrancl)
    qed
    from 1(1)[OF node(1,2,3) _ _ 1(5) _ _] sub 1(4) reach 1(7)
    have pf: "parents_first pm xs1" by simp
    have "p \<in> set xs1" if e: "(job, p) \<in> ?R" for p
    proof (rule ccontr)
      assume n: "p \<notin> set xs1"
      from e node(2) have "p \<in> set parents" by (auto simp: graph_edges_def)
      with ps n eq have "p \<in> insert job visited - set xs" by auto
      with 1(6) have "(p, job) \<in> ?R\<^sup>*" by auto
      with e have "(job, job) \<in> ?R\<^sup>+" by (rule rtrancl_into_trancl2)
      with 1(5) show False by (auto simp: acyclic_def)
    qed
    from parents_first_snoc[OF pf j1 this] show ?thesis
      by (simp add: st' node(4) add_to_ordered_job_def)
  qed
next
  case (2 pm st)
  then show ?case by simp
next
  case (3 pm parent parents st)
  from 3(3) obtain st1 where a: "call_on_graph_node_helper add_to_ordered_job pm parent st = Inr st1"
    and b: "call_on_parents add_to_ordered_job pm parents st1 = Inr st'"
    by (rule call_on_parents_Cons_Inr)
  from traversal_post(1)[OF a 3(4,5)] have p1: "trav_post pm st st1" by simp
  then have i1: "set (snd st1) \<subseteq> fst st1" "distinct (snd st1)"
    and eq: "fst st1 - set (snd st1) = fst st - set (snd st)" by (simp_all add: trav_post_def)
  from 3(1)[OF a 3(4,5,6) _ 3(8)] 3(7) have pf1: "parents_first pm (snd st1)" by simp
  from 3(2)[OF a b i1 3(6) _ pf1] 3(7) eq show ?case by simp
qed


section \<open>The sequential order\<close>

text \<open>
  The nodes of a graph are its keys and the nodes of its dependency lists. The examples
  use the graph \<^verbatim>\<open>{A: [B, C], B: [D], C: [D]}\<close> with the numbers 1 to 4 for the nodes
  \<^verbatim>\<open>A\<close> to \<^verbatim>\<open>D\<close>, and the cyclic graph \<^verbatim>\<open>{A: [B], B: [A]}\<close>.
\<close>

lemma parents_closed_build: "parents_closed (build_parental_map g)"
  using Domain_graph_edges[of g]
  by (auto simp: parents_closed_def build_parental_map_spec graph_nodes_def)

lemma sequential_order_spec:
  "\<exists>order. find_sequential_run_order (JobOrderResolver g) = Inr order \<and>
     distinct order \<and> set order = graph_nodes g \<and>
     (acyclic (graph_edges g) \<longrightarrow> parents_first (build_parental_map g) order)"
proof -
  let ?pm = "build_parental_map g"
  let ?c = "add_to_ordered_job :: 'a \<Rightarrow> 'a list \<Rightarrow> 'a list \<Rightarrow> 'a list"
  from call_no_error(2)[OF parents_closed_build, of "map fst ?pm" g ?c "({}, [])"]
  obtain v' xs' where r: "call_on_parents ?c ?pm (map fst ?pm) ({}, []) = Inr (v', xs')"
    by auto
  from traversal_post(2)[OF r]
  have p: "trav_post ?pm ({}, []) (v', xs')" and k: "fst ` set ?pm \<subseteq> v'" by simp_all
  from p k have v: "v' = fst ` set ?pm" and x: "set xs' = v'" and d: "distinct xs'"
    by (auto simp: trav_post_def)
  have pf: "parents_first ?pm xs'" if "acyclic (graph_edges g)"
  proof -
    from that have "acyclic (graph_edges ?pm)" by (simp add: build_parental_map_spec)
    from traversal_parents_first(2)[OF r _ _ this] show ?thesis
      by (simp add: parents_first_def)
  qed
  from r have "find_sequential_run_order (JobOrderResolver g) = Inr xs'"
    by (simp add: find_sequential_run_order_def call_on_graph_nodes_def JobOrderResolver_def)
  with v x d pf show ?thesis by (simp add: build_parental_map_spec)
qed

lemma call_on_graph_nodes_simulation:
  assumes "\<forall>j ps s. h (c j ps s) = c' j ps (h s)"
  shows "call_on_graph_nodes self c' (h s) = map_sum id h (call_on_graph_nodes self c s)"
  using call_simulation(2)[OF assms, of "parental_map self" "map fst (parental_map self)" "({}, s)"]
  by (auto simp: call_on_graph_nodes_def split: sum.splits)

lemma find_sequential_run_order_calls:
  "find_sequential_run_order self = map_sum id (map fst) (call_on_graph_nodes self record_call [])"
  using call_on_graph_nodes_simulation[of "map fst" record_call add_to_ordered_job self "[]"]
  by (simp add: find_sequential_run_order_def record_call_def add_to_ordered_job_def)

lemma call_on_graph_nodes_fold:
  "call_on_graph_nodes self c s =
     map_sum id (\<lambda>calls. fold (\<lambda>(job, parents). c job parents) calls s)
       (call_on_graph_nodes self record_call [])"
  using call_on_graph_nodes_simulation[of "\<lambda>calls. fold (\<lambda>(job, parents). c job parents) calls s"
      record_call c self "[]"]
  by (simp add: record_call_def)

lemma graph_nodes_distinct:
  assumes "distinct (map fst g)"
  shows "graph_nodes g = fst ` set g \<union> \<Union> (set ` snd ` set g)"
  using assms by (auto simp: graph_nodes_def graph_edges_def Range_iff intro: rev_image_eqI)

lemma diamond_order:
  "find_sequential_run_order (JobOrderResolver [(1::nat, [2, 3]), (2, [4]), (3, [4])]) = Inr [1, 2, 3, 4]"
  by (simp add: find_sequential_run_order_def JobOrderResolver_def build_parental_map_def
      call_on_graph_nodes_def fill_parental_map.simps call_on_graph_node_helper.simps
      od_contains_def od_append_def add_to_ordered_job_def)

lemma diamond_calls:
  "call_on_graph_nodes (JobOrderResolver [(1::nat, [2, 3]), (2, [4]), (3, [4])]) record_call [] =
     Inr [(1, []), (2, [1]), (3, [1]), (4, [2, 3])]"
  by (simp add: JobOrderResolver_def build_parental_map_def
      call_on_graph_nodes_def fill_parental_map.simps call_on_graph_node_helper.simps
      od_contains_def od_append_def record_call_def)

lemma cyclic_order:
  "find_sequential_run_order (JobOrderResolver [(1::nat, [2]), (2, [1])]) = Inr [2, 1]"
  by (simp add: find_sequential_run_order_def JobOrderResolver_def build_parental_map_def
      call_on_graph_nodes_def fill_parental_map.simps call_on_graph_node_helper.simps
      od_contains_def od_append_def add_to_ordered_job_def)

text \<open>
  Claim C10. One invocation of \<^verbatim>\<open>call_on_graph_nodes\<close> calls the consumer exactly once
  for each node of the graph (every key and every node of a dependency list), whatever
  the consumer: the recorded calls \<open>calls\<close> name every node once, the state any consumer
  ends with is its fold over \<open>calls\<close>, and \<^verbatim>\<open>find_sequential_run_order\<close> returns the
  called nodes, each exactly once. The theorem needs no acyclicity: it holds for the
  acyclic graphs of the claim and for the others.
\<close>

theorem call_on_graph_nodes_once:
  "\<exists>calls. call_on_graph_nodes (JobOrderResolver g) record_call [] = Inr calls \<and>
     distinct (map fst calls) \<and> set (map fst calls) = graph_nodes g \<and>
     find_sequential_run_order (JobOrderResolver g) = Inr (map fst calls) \<and>
     (\<forall>c s. call_on_graph_nodes (JobOrderResolver g) c s =
        Inr (fold (\<lambda>(job, parents). c job parents) calls s))"
proof -
  from sequential_order_spec[of g] obtain order
    where o: "find_sequential_run_order (JobOrderResolver g) = Inr order"
      and d: "distinct order" and s: "set order = graph_nodes g" by blast
  from o find_sequential_run_order_calls[of "JobOrderResolver g"]
  obtain calls where c: "call_on_graph_nodes (JobOrderResolver g) record_call [] = Inr calls"
    and m: "order = map fst calls"
    by (cases "call_on_graph_nodes (JobOrderResolver g) record_call []") auto
  have "call_on_graph_nodes (JobOrderResolver g) c s =
        Inr (fold (\<lambda>(job, parents). c job parents) calls s)" for c :: "'a \<Rightarrow> 'a list \<Rightarrow> 'b \<Rightarrow> 'b" and s
    using call_on_graph_nodes_fold[of "JobOrderResolver g" c s] c by simp
  with c d s o m show ?thesis by blast
qed

theorem call_on_graph_nodes_once_witness:
  "call_on_graph_nodes (JobOrderResolver [(1::nat, [2, 3]), (2, [4]), (3, [4])]) record_call [] =
     Inr [(1, []), (2, [1]), (3, [1]), (4, [2, 3])] \<and>
   find_sequential_run_order (JobOrderResolver [(1::nat, [2, 3]), (2, [4]), (3, [4])]) =
     Inr [1, 2, 3, 4] \<and>
   graph_nodes [(1::nat, [2, 3]), (2, [4]), (3, [4])] = {1, 2, 3, 4}"
proof -
  from call_on_graph_nodes_once[of "[(1::nat, [2, 3]), (2, [4]), (3, [4])]"] diamond_calls
  have "graph_nodes [(1::nat, [2, 3]), (2, [4]), (3, [4])] = set [1, 2, 3, 4]"
    by auto
  with diamond_calls diamond_order show ?thesis by simp
qed

text \<open>
  Claim C1, amended. For every acyclic dependency graph (the graphs that
  \<^verbatim>\<open>JobGraphValidator.validate\<close> accepts, which \<^verbatim>\<open>Definition\<close> checks before it builds the
  resolver), \<^verbatim>\<open>call_on_graph_nodes\<close> calls the consumer on a node only after it has called
  it on every parent of the node, a parent being a key whose dependency list holds the
  node; so the list of \<^verbatim>\<open>find_sequential_run_order\<close> has every parent before its child.
  For \<^verbatim>\<open>{A: [B, C], B: [D], C: [D]}\<close> the order is \<^verbatim>\<open>A, B, C, D\<close>.
\<close>

theorem parents_first_order:
  assumes "acyclic (graph_edges g)"
  shows "\<exists>calls. call_on_graph_nodes (JobOrderResolver g) record_call [] = Inr calls \<and>
     find_sequential_run_order (JobOrderResolver g) = Inr (map fst calls) \<and>
     (\<forall>(parent, job) \<in> graph_edges g.
        job \<in> set (map fst calls) \<and>
        parent \<in> set (takeWhile (\<lambda>x. x \<noteq> job) (map fst calls)))"
proof -
  from sequential_order_spec[of g] assms obtain order
    where o: "find_sequential_run_order (JobOrderResolver g) = Inr order"
      and s: "set order = graph_nodes g" and pf: "parents_first (build_parental_map g) order" by blast
  from o find_sequential_run_order_calls[of "JobOrderResolver g"]
  obtain calls where c: "call_on_graph_nodes (JobOrderResolver g) record_call [] = Inr calls"
    and m: "order = map fst calls"
    by (cases "call_on_graph_nodes (JobOrderResolver g) record_call []") auto
  have "job \<in> set order \<and> parent \<in> set (takeWhile (\<lambda>x. x \<noteq> job) order)"
    if e: "(parent, job) \<in> graph_edges g" for parent job
  proof -
    from e s have j: "job \<in> set order" by (auto simp: graph_nodes_def)
    from e have "(job, parent) \<in> graph_edges (build_parental_map g)"
      by (simp add: build_parental_map_spec)
    with pf j show ?thesis by (auto simp: parents_first_def)
  qed
  with c o m show ?thesis by auto
qed

theorem parents_first_order_witness:
  "acyclic (graph_edges [(1::nat, [2, 3]), (2, [4]), (3, [4])]) \<and>
   find_sequential_run_order (JobOrderResolver [(1::nat, [2, 3]), (2, [4]), (3, [4])]) =
     Inr [1, 2, 3, 4] \<and>
   1 \<in> set (takeWhile (\<lambda>x. x \<noteq> 2) [1, 2, 3, 4::nat]) \<and>
   1 \<in> set (takeWhile (\<lambda>x. x \<noteq> 3) [1, 2, 3, 4::nat]) \<and>
   2 \<in> set (takeWhile (\<lambda>x. x \<noteq> 4) [1, 2, 3, 4::nat]) \<and>
   3 \<in> set (takeWhile (\<lambda>x. x \<noteq> 4) [1, 2, 3, 4::nat])"
proof -
  let ?g = "[(1::nat, [2, 3]), (2, [4]), (3, [4])]"
  have "validate ?g = Inr ()"
    by (simp add: validate_def validate_if_not_cyclic_def validate_job.simps)
  then have ac: "acyclic (graph_edges ?g)" by (rule validate_ok_acyclic)
  from parents_first_order[OF ac] diamond_order
  have all: "\<forall>(parent, job) \<in> graph_edges ?g.
      parent \<in> set (takeWhile (\<lambda>x. x \<noteq> job) [1, 2, 3, 4])"
    by auto
  have "(1, 2) \<in> graph_edges ?g" "(1, 3) \<in> graph_edges ?g"
    "(2, 4) \<in> graph_edges ?g" "(3, 4) \<in> graph_edges ?g"
    by (simp_all add: graph_edges_def)
  with all have "1 \<in> set (takeWhile (\<lambda>x. x \<noteq> 2) [1, 2, 3, 4::nat])"
    "1 \<in> set (takeWhile (\<lambda>x. x \<noteq> 3) [1, 2, 3, 4::nat])"
    "2 \<in> set (takeWhile (\<lambda>x. x \<noteq> 4) [1, 2, 3, 4::nat])"
    "3 \<in> set (takeWhile (\<lambda>x. x \<noteq> 4) [1, 2, 3, 4::nat])"
    by blast+
  with ac diamond_order show ?thesis by blast
qed

text \<open>
  The claim as stated, for every graph, fails on a cyclic graph handed to the resolver:
  in \<^verbatim>\<open>{A: [B], B: [A]}\<close> the node \<^verbatim>\<open>A\<close> is a parent of \<^verbatim>\<open>B\<close>, and the consumer is called
  on \<^verbatim>\<open>B\<close> first. The validator rejects this graph.
\<close>

theorem parents_first_order_counterexample:
  "call_on_graph_nodes (JobOrderResolver [(1::nat, [2]), (2, [1])]) record_call [] =
     Inr [(2, [1]), (1, [2])] \<and>
   find_sequential_run_order (JobOrderResolver [(1::nat, [2]), (2, [1])]) = Inr [2, 1] \<and>
   (1, 2) \<in> graph_edges [(1::nat, [2]), (2, [1])] \<and>
   1 \<notin> set (takeWhile (\<lambda>x. x \<noteq> 2) [2, 1::nat]) \<and>
   validate [(1::nat, [2]), (2, [1])] = Inl (InvalidJobGraph 1)"
proof -
  have "call_on_graph_nodes (JobOrderResolver [(1::nat, [2]), (2, [1])]) record_call [] =
     Inr [(2, [1]), (1, [2])]"
    by (simp add: JobOrderResolver_def build_parental_map_def
        call_on_graph_nodes_def fill_parental_map.simps call_on_graph_node_helper.simps
        od_contains_def od_append_def record_call_def)
  moreover have "(1, 2) \<in> graph_edges [(1::nat, [2]), (2, [1])]"
    by (simp add: graph_edges_def)
  moreover have "validate [(1::nat, [2]), (2, [1])] = Inl (InvalidJobGraph 1)"
    by (simp add: validate_def validate_if_not_cyclic_def validate_job.simps)
  ultimately show ?thesis using cyclic_order by simp
qed


section \<open>The graph of a job list\<close>

text \<open>
  For a list of distinct jobs, \<open>chain_graph\<close> is the dictionary \<^verbatim>\<open>_convert_list_to_graph\<close>
  builds (for two jobs or more), and \<open>chain_parents xs k\<close> the parental map once the
  first \<open>k\<close> jobs have their entries: the first job has no parent, each other job has the
  job before it.
\<close>

definition chain_graph :: "'a list \<Rightarrow> 'a job_graph" where
  "chain_graph xs = map (\<lambda>i. (xs ! i, [xs ! Suc i])) [0..<length xs - 1]"

definition chain_parents :: "'a list \<Rightarrow> nat \<Rightarrow> 'a job_graph" where
  "chain_parents xs k = map (\<lambda>i. (xs ! i, if i = 0 then [] else [xs ! (i - 1)])) [0..<k]"

lemma update_fresh: "k \<notin> fst ` set al \<Longrightarrow> AList.update k v al = al @ [(k, v)]"
  by (induction al) auto

lemma map_of_indexed:
  assumes "distinct xs" "k < m" "m \<le> length xs"
  shows "map_of (map (\<lambda>i. (xs ! i, f i)) [0..<m]) (xs ! k) = Some (f k)"
proof -
  have "distinct (map fst (map (\<lambda>i. (xs ! i, f i)) [0..<m]))"
    using assms by (auto simp: distinct_map inj_on_def nth_eq_iff_index_eq comp_def)
  moreover have "(xs ! k, f k) \<in> set (map (\<lambda>i. (xs ! i, f i)) [0..<m])"
    using assms by auto
  ultimately show ?thesis by (rule map_of_is_SomeI)
qed

lemma keys_indexed: "fst ` set (map (\<lambda>i. (xs ! i, f i)) [0..<m]) = (\<lambda>i. xs ! i) ` {0..<m}"
  by (force simp: image_iff)

lemma nth_not_in_keys:
  assumes "distinct xs" "m \<le> k" "k < length xs"
  shows "xs ! k \<notin> fst ` set (map (\<lambda>i. (xs ! i, f i)) [0..<m])"
  using assms by (auto simp: keys_indexed nth_eq_iff_index_eq)

lemma chain_fold:
  assumes "distinct xs"
  shows "m < length xs \<Longrightarrow>
    fold (\<lambda>i graph_as_dict. AList.update (xs ! (i - 1)) [xs ! i] graph_as_dict) [1..<Suc m] [] =
    map (\<lambda>i. (xs ! i, [xs ! Suc i])) [0..<m]"
proof (induction m)
  case 0
  show ?case by simp
next
  case (Suc m)
  from Suc.prems have m: "m < length xs" by simp
  have "xs ! m \<notin> fst ` set (map (\<lambda>i. (xs ! i, [xs ! Suc i])) [0..<m])"
    using assms m by (intro nth_not_in_keys) auto
  from update_fresh[OF this] Suc.IH[OF m] show ?case by simp
qed

lemma convert_list_to_graph_chain:
  assumes "distinct xs" "length xs \<noteq> 1"
  shows "convert_list_to_graph xs = chain_graph xs"
proof (cases "length xs")
  case 0
  then show ?thesis by (simp add: convert_list_to_graph_def chain_graph_def)
next
  case (Suc m)
  then have "m < length xs" by simp
  from chain_fold[OF assms(1) this] assms(2) Suc show ?thesis
    by (simp add: convert_list_to_graph_def chain_graph_def)
qed

lemma convert_list_to_graph_single: "convert_list_to_graph [x] = [(x, [])]"
  by (simp add: convert_list_to_graph_def)

lemma chain_graph_lookup:
  assumes "distinct xs" "Suc i < length xs"
  shows "map_of (chain_graph xs) (xs ! i) = Some [xs ! Suc i]"
  unfolding chain_graph_def using assms by (intro map_of_indexed) auto

lemma chain_graph_last:
  assumes "distinct xs" "xs \<noteq> []"
  shows "map_of (chain_graph xs) (xs ! (length xs - 1)) = None"
  unfolding chain_graph_def map_of_eq_None_iff using assms
  by (intro nth_not_in_keys) auto

lemma chain_graph_keys: "map fst (chain_graph xs) = butlast xs"
  by (auto simp: chain_graph_def intro!: nth_equalityI simp: nth_butlast)


lemma map_entry_last:
  "k \<notin> fst ` set al \<Longrightarrow> AList.map_entry k f (al @ [(k, v)]) = al @ [(k, f v)]"
  by (induction al) auto

lemma nth_notin_take:
  assumes "distinct xs" "i < length xs"
  shows "xs ! i \<notin> set (take i xs)"
  using assms by (auto simp: in_set_conv_nth nth_eq_iff_index_eq)

lemma set_take_Suc: "i < length xs \<Longrightarrow> insert (xs ! i) (set (take i xs)) = set (take (Suc i) xs)"
  by (simp add: take_Suc_conv_app_nth)

lemma chain_parents_Suc:
  "chain_parents xs (Suc k) = chain_parents xs k @ [(xs ! k, if k = 0 then [] else [xs ! (k - 1)])]"
  by (simp add: chain_parents_def)

lemma chain_parents_lookup:
  assumes "distinct xs" "k < m" "m \<le> length xs"
  shows "map_of (chain_parents xs m) (xs ! k) = Some (if k = 0 then [] else [xs ! (k - 1)])"
  unfolding chain_parents_def using assms by (rule map_of_indexed)

lemma chain_parents_extend:
  assumes "distinct xs" "Suc i < length xs"
  shows "od_append
           (if od_contains (chain_parents xs (Suc i)) (xs ! Suc i) then chain_parents xs (Suc i)
            else AList.update (xs ! Suc i) [] (chain_parents xs (Suc i)))
           (xs ! Suc i) (xs ! i) = chain_parents xs (Suc (Suc i))"
proof -
  have fresh: "xs ! Suc i \<notin> fst ` set (chain_parents xs (Suc i))"
    unfolding chain_parents_def using assms by (intro nth_not_in_keys) auto
  then have "\<not> od_contains (chain_parents xs (Suc i)) (xs ! Suc i)"
    by (simp add: od_contains_def map_of_eq_None_iff)
  with fresh show ?thesis
    by (simp add: od_append_def update_fresh map_entry_last chain_parents_Suc[of xs "Suc i"])
qed

lemma fill_chain:
  assumes "distinct xs"
  shows "i < length xs \<Longrightarrow>
    fill_parental_map (chain_graph xs) (xs ! i) (chain_parents xs (Suc i), set (take i xs)) =
      (chain_parents xs (length xs), set (take (length xs - 1) xs))"
proof (induction "length xs - Suc i" arbitrary: i)
  case 0
  then have i: "i = length xs - 1" and ne: "xs \<noteq> []" and s: "Suc i = length xs" by auto
  from chain_graph_last[OF assms ne] show ?case
    unfolding s unfolding i by (simp add: fill_parental_map.simps)
next
  case (Suc d)
  then have si: "Suc i < length xs" by simp
  have nv: "xs ! i \<notin> set (take i xs)" using assms Suc.prems by (rule nth_notin_take)
  have c: "od_contains (chain_parents xs (Suc i)) (xs ! i)"
    using chain_parents_lookup[OF assms, of i "Suc i"] si by (simp add: od_contains_def)
  from Suc.hyps(2) have d: "d = length xs - Suc (Suc i)" by simp
  have "fill_parental_map (chain_graph xs) (xs ! i) (chain_parents xs (Suc i), set (take i xs)) =
        fill_parental_map (chain_graph xs) (xs ! Suc i)
          (chain_parents xs (Suc (Suc i)), set (take (Suc i) xs))"
    using chain_graph_lookup[OF assms si] nv c chain_parents_extend[OF assms si]
      set_take_Suc[OF Suc.prems]
    by (simp add: fill_parental_map.simps)
  also have "\<dots> = (chain_parents xs (length xs), set (take (length xs - 1) xs))"
    using Suc.hyps(1)[OF d si] .
  finally show ?case .
qed

lemma fill_jobs_visited:
  "set jobs \<subseteq> visited \<Longrightarrow> fill_jobs g jobs (pm, visited) = (pm, visited)"
  by (induction jobs) (auto simp: fill_parental_map.simps split: option.splits)

lemma build_parental_map_chain:
  assumes "distinct xs" "xs \<noteq> []"
  shows "build_parental_map (convert_list_to_graph xs) = chain_parents xs (length xs)"
proof (cases "length xs = 1")
  case True
  then obtain x where "xs = [x]" by (cases xs) auto
  then show ?thesis
    by (simp add: convert_list_to_graph_single build_parental_map_def fill_parental_map.simps
        od_contains_def chain_parents_def)
next
  case False
  with assms(2) have n: "1 < length xs" by (cases xs) auto
  let ?g = "chain_graph xs"
  from n have keys: "map fst ?g = xs ! 0 # tl (butlast xs)"
    unfolding chain_graph_keys by (cases xs) (auto simp: neq_Nil_conv)
  have start: "fill_parental_map ?g (xs ! 0) ([], {}) =
      fill_parental_map ?g (xs ! 0) (chain_parents xs (Suc 0), set (take 0 xs))"
    using chain_graph_lookup[OF assms(1), of 0] n
    by (simp add: fill_parental_map.simps od_contains_def chain_parents_def)
  have rest: "set (tl (butlast xs)) \<subseteq> set (take (length xs - 1) xs)"
    by (metis butlast_conv_take list.set_sel(2) subsetI tl_Nil)
  have "fill_jobs ?g (map fst ?g) ([], {}) =
      fill_jobs ?g (tl (butlast xs)) (chain_parents xs (length xs), set (take (length xs - 1) xs))"
    unfolding keys using start fill_chain[OF assms(1), of 0] assms(2) by simp
  also have "\<dots> = (chain_parents xs (length xs), set (take (length xs - 1) xs))"
    using rest by (rule fill_jobs_visited)
  finally show ?thesis
    using convert_list_to_graph_chain[OF assms(1) False] by (simp add: build_parental_map_def)
qed

lemma call_chain:
  assumes "distinct xs"
  shows "k \<le> length xs \<Longrightarrow>
    call_on_parents add_to_ordered_job (chain_parents xs (length xs)) (drop k xs)
      (set (take k xs), take k xs) = Inr (set xs, xs)"
proof (induction "length xs - k" arbitrary: k)
  case 0
  then show ?case by simp
next
  case (Suc d)
  then have k: "k < length xs" by simp
  from Suc.hyps(2) have d: "d = length xs - Suc k" by simp
  have nv: "xs ! k \<notin> set (take k xs)" using assms k by (rule nth_notin_take)
  have look: "map_of (chain_parents xs (length xs)) (xs ! k) =
      Some (if k = 0 then [] else [xs ! (k - 1)])"
    using assms k by (intro chain_parents_lookup) auto
  have prev: "k \<noteq> 0 \<Longrightarrow> xs ! (k - 1) \<in> set (take k xs)"
    using k by (auto simp: in_set_conv_nth intro!: exI[of _ "k - 1"])
  have step: "call_on_graph_node_helper add_to_ordered_job (chain_parents xs (length xs)) (xs ! k)
      (set (take k xs), take k xs) = Inr (set (take (Suc k) xs), take (Suc k) xs)"
    using nv look prev k
    by (auto simp: call_on_graph_node_helper.simps add_to_ordered_job_def take_Suc_conv_app_nth)
  have "drop k xs = xs ! k # drop (Suc k) xs" using k by (simp add: Cons_nth_drop_Suc)
  with step Suc.hyps(1)[OF d] k show ?case by simp
qed

lemma chain_parents_keys: "map fst (chain_parents xs (length xs)) = xs"
  by (auto simp: chain_parents_def intro!: nth_equalityI)

lemma chain_order:
  assumes "distinct xs" "xs \<noteq> []"
  shows "find_sequential_run_order (JobOrderResolver (convert_list_to_graph xs)) = Inr xs"
  using call_chain[OF assms(1), of 0]
  by (simp add: find_sequential_run_order_def call_on_graph_nodes_def JobOrderResolver_def
      build_parental_map_chain[OF assms] chain_parents_keys)

text \<open>
  Claim C3, amended. For every non-empty job list of pairwise distinct elements (the list
  \<^verbatim>\<open>Workflow\<close> builds from a job list is one: it names the jobs by their index), the
  graph built is a strict linear chain: a single element maps to the empty list; of two
  or more elements the keys are all but the last, in the order of the list, and element
  \<open>i - 1\<close> maps to exactly \<open>[element i]\<close>. The sequential order of the chain is the list
  itself, so it is \<^verbatim>\<open>[A, B, C]\<close> for \<^verbatim>\<open>[A, B, C]\<close>.
\<close>

theorem convert_list_to_graph_chain_order:
  assumes "distinct job_list" "job_list \<noteq> []"
  shows "(length job_list = 1 \<longrightarrow> convert_list_to_graph job_list = [(job_list ! 0, [])]) \<and>
         (1 < length job_list \<longrightarrow>
            map fst (convert_list_to_graph job_list) = butlast job_list \<and>
            (\<forall>i. 1 \<le> i \<and> i < length job_list \<longrightarrow>
               map_of (convert_list_to_graph job_list) (job_list ! (i - 1)) = Some [job_list ! i])) \<and>
         find_sequential_run_order (JobOrderResolver (convert_list_to_graph job_list)) =
           Inr job_list"
proof (intro conjI impI allI)
  assume "length job_list = 1"
  then obtain x where "job_list = [x]" by (cases job_list) auto
  then show "convert_list_to_graph job_list = [(job_list ! 0, [])]"
    by (simp add: convert_list_to_graph_single)
next
  assume "1 < length job_list"
  then have "length job_list \<noteq> 1" by simp
  from convert_list_to_graph_chain[OF assms(1) this]
  show "map fst (convert_list_to_graph job_list) = butlast job_list"
    by (simp add: chain_graph_keys)
next
  fix i assume n: "1 < length job_list" and i: "1 \<le> i \<and> i < length job_list"
  then have "length job_list \<noteq> 1" and "Suc (i - 1) < length job_list" by simp_all
  from convert_list_to_graph_chain[OF assms(1) this(1)] chain_graph_lookup[OF assms(1) this(2)] i
  show "map_of (convert_list_to_graph job_list) (job_list ! (i - 1)) = Some [job_list ! i]"
    by simp
next
  from assms show "find_sequential_run_order (JobOrderResolver (convert_list_to_graph job_list)) =
    Inr job_list" by (rule chain_order)
qed

theorem convert_list_to_graph_chain_order_witness:
  "distinct [1, 2, 3::nat] \<and> [1, 2, 3::nat] \<noteq> [] \<and>
   convert_list_to_graph [1, 2, 3::nat] = [(1, [2]), (2, [3])] \<and>
   map_of (convert_list_to_graph [1, 2, 3::nat]) 1 = Some [2] \<and>
   map_of (convert_list_to_graph [1, 2, 3::nat]) 2 = Some [3] \<and>
   find_sequential_run_order (JobOrderResolver (convert_list_to_graph [1, 2, 3::nat])) =
     Inr [1, 2, 3] \<and>
   convert_list_to_graph [7::nat] = [(7, [])] \<and>
   find_sequential_run_order (JobOrderResolver (convert_list_to_graph [7::nat])) = Inr [7]"
proof -
  have d: "distinct [1, 2, 3::nat]" "[1, 2, 3::nat] \<noteq> []" by simp_all
  have g: "convert_list_to_graph [1, 2, 3::nat] = [(1, [2]), (2, [3])]"
    by (simp add: convert_list_to_graph_def upt_rec)
  have m: "map_of (convert_list_to_graph [1, 2, 3::nat]) 1 = Some [2]"
    "map_of (convert_list_to_graph [1, 2, 3::nat]) 2 = Some [3]"
    unfolding g by simp_all
  have o3: "find_sequential_run_order (JobOrderResolver (convert_list_to_graph [1, 2, 3::nat])) =
     Inr [1, 2, 3]"
    using convert_list_to_graph_chain_order[OF d] by blast
  have s1: "convert_list_to_graph [7::nat] = [(7, [])]"
    by (simp add: convert_list_to_graph_def)
  have s2: "find_sequential_run_order (JobOrderResolver (convert_list_to_graph [7::nat])) = Inr [7]"
  proof -
    have "distinct [7::nat]" "[7::nat] \<noteq> []" by simp_all
    from convert_list_to_graph_chain_order[OF this] show ?thesis by blast
  qed
  from d g m o3 s1 s2 show ?thesis by blast
qed

text \<open>
  The claim as stated, for every non-empty list, fails on a list that holds a job twice:
  the later assignment to the repeated key replaces the earlier one. In
  \<^verbatim>\<open>[A, B, A, C]\<close> element 0 maps to \<^verbatim>\<open>[C]\<close>, not to element 1.
\<close>

theorem convert_list_to_graph_counterexample:
  "convert_list_to_graph [1, 2, 1, 3::nat] = [(1, [3]), (2, [1])] \<and>
   [1, 2, 1, 3::nat] ! 0 = 1 \<and> [1, 2, 1, 3::nat] ! 1 = 2 \<and>
   map_of (convert_list_to_graph [1, 2, 1, 3::nat]) 1 \<noteq> Some [2]"
  by (simp add: convert_list_to_graph_def upt_rec)


section \<open>The job context\<close>

lemma parse_runtime_str_eq:
  "parse_runtime_str env s =
     (case strptime env s ''%Y-%m-%d %H:%M:%S'' of
        Some d \<Rightarrow> Inr d
      | None \<Rightarrow> (case strptime env s ''%Y-%m-%d'' of
                   Some d \<Rightarrow> Inr d
                 | None \<Rightarrow> Inl (NameError ''rt'')))"
  by (simp add: parse_runtime_str_def RUNTIME_FORMATS_def split: option.splits)

lemma make_job_context_eq:
  "make_job_context env self (RuntimeStr s) =
     (case strptime env s ''%Y-%m-%d %H:%M:%S'' of
        Some d \<Rightarrow> Inr \<lparr>runtime = d, runtime_as_str = s, workflow = self\<rparr>
      | None \<Rightarrow> (case strptime env s ''%Y-%m-%d'' of
                   Some d \<Rightarrow> Inr \<lparr>runtime = d, runtime_as_str = s, workflow = self\<rparr>
                 | None \<Rightarrow> Inl (NameError ''rt'')))"
  "make_job_context env self RuntimeNone =
     Inr \<lparr>runtime = now env, runtime_as_str = strftime env (now env) ''%Y-%m-%d %H:%M:%S'',
          workflow = self\<rparr>"
  "make_job_context env self (RuntimeDatetime d) =
     Inr \<lparr>runtime = d, runtime_as_str = strftime env d ''%Y-%m-%d %H:%M:%S'', workflow = self\<rparr>"
  by (simp_all add: make_job_context_def parse_runtime_str_eq RUNTIME_FORMATS_def Let_def
      split: option.splits)


section \<open>Running a workflow\<close>

lemma example_workflow_built:
  "Workflow ''w'' (DefinitionList [JobObject job_a, JobObject job_b, JobObject job_c])
     DEFAULT_SCHEDULE_INTERVAL = Inr example_workflow"
  by (simp add: Workflow_def parse_definition_def Definition_def build_graph_def
      map_to_workflow_jobs_def convert_list_to_graph_def upt_rec
      validate_def validate_if_not_cyclic_def validate_job.simps example_workflow_def
      example_graph_def DEFAULT_SCHEDULE_INTERVAL_def)

lemma example_workflow_order:
  "build_sequential_order example_workflow =
     Inr [WorkflowJob (JobObject job_a) (Index 0), WorkflowJob (JobObject job_b) (Index 1),
          WorkflowJob (JobObject job_c) (Index 2)]"
  by (simp add: build_sequential_order_def sequential_order_def job_order_resolver_def
      example_workflow_def example_graph_def
      find_sequential_run_order_def JobOrderResolver_def build_parental_map_def
      call_on_graph_nodes_def fill_parental_map.simps call_on_graph_node_helper.simps
      od_contains_def od_append_def add_to_ordered_job_def)

lemma build_sequential_order_total:
  "\<exists>order. build_sequential_order self = Inr order \<and> distinct order \<and>
     set order = graph_nodes (d_job_graph (wf_definition self))"
  using sequential_order_spec[of "d_job_graph (wf_definition self)"]
  by (auto simp: build_sequential_order_def sequential_order_def job_order_resolver_def)

lemma run_raises_on_first_job:
  assumes "make_job_context env self runtime_arg = Inr context"
    and "build_sequential_order self = Inr (WorkflowJob job name # jobs)"
  shows "run behaviour env self runtime_arg calls = (Inl (Exception ''XXX''), calls)"
  using assms by (simp add: run_def execute_job_def)

lemma make_job_context_None:
  "make_job_context env self RuntimeNone =
     Inr \<lparr>runtime = now env, runtime_as_str = strftime env (now env) ''%Y-%m-%d %H:%M:%S'',
          workflow = self\<rparr>"
  by (simp add: make_job_context_def RUNTIME_FORMATS_def Let_def)



lemma example_old_workflow_built:
  "Workflow ''old'' (DefinitionList [JobObject job_old]) DEFAULT_SCHEDULE_INTERVAL =
     Inr example_old_workflow"
  by (simp add: Workflow_def parse_definition_def Definition_def build_graph_def
      map_to_workflow_jobs_def convert_list_to_graph_def
      validate_def validate_if_not_cyclic_def validate_job.simps example_old_workflow_def
      DEFAULT_SCHEDULE_INTERVAL_def)






lemma example_bare_workflow_order:
  "build_sequential_order example_bare_workflow =
     Inr [JobObject job_a, JobObject job_b, JobObject job_c]"
  by (simp add: build_sequential_order_def sequential_order_def job_order_resolver_def
      example_bare_workflow_def example_bare_definition_def job_a_def job_b_def job_c_def
      find_sequential_run_order_def JobOrderResolver_def build_parental_map_def
      call_on_graph_nodes_def fill_parental_map.simps call_on_graph_node_helper.simps
      od_contains_def od_append_def add_to_ordered_job_def)

lemma run_example_bare_workflow:
  "make_job_context env example_bare_workflow RuntimeNone = Inr context \<Longrightarrow>
   run no_failure env example_bare_workflow RuntimeNone [] =
     (Inr (), [(JobObject job_a, context), (JobObject job_b, context), (JobObject job_c, context)])"
  by (simp add: run_def example_bare_workflow_order execute_job_def no_failure_def
      job_a_def job_b_def job_c_def)


text \<open>
  The jobs of a dictionary given to \<^verbatim>\<open>Definition\<close> are wrapped under their \<^verbatim>\<open>id\<close>;
  \<^verbatim>\<open>job_c\<close>, a target of two sources, stands once in the order, after both.
\<close>

lemma example_dict_workflow_built:
  "Definition (JobsDict [(JobObject job_a, [JobObject job_b, JobObject job_c]),
                         (JobObject job_b, [JobObject job_c])]) =
     Inr example_dict_definition"
  "Workflow ''dict'' (DefinitionObject example_dict_definition) DEFAULT_SCHEDULE_INTERVAL =
     Inr example_dict_workflow"
  by (simp_all add: Workflow_def parse_definition_def Definition_def build_graph_def
      job_a_def job_b_def job_c_def
      validate_def validate_if_not_cyclic_def validate_job.simps example_dict_workflow_def
      example_dict_definition_def DEFAULT_SCHEDULE_INTERVAL_def)

lemma example_dict_workflow_order:
  "build_sequential_order example_dict_workflow =
     Inr [WorkflowJob (JobObject job_a) (Name ''a''), WorkflowJob (JobObject job_b) (Name ''b''),
          WorkflowJob (JobObject job_c) (Name ''c'')]"
  by (simp add: build_sequential_order_def sequential_order_def job_order_resolver_def
      example_dict_workflow_def example_dict_definition_def job_a_def job_b_def job_c_def
      find_sequential_run_order_def JobOrderResolver_def build_parental_map_def
      call_on_graph_nodes_def fill_parental_map.simps call_on_graph_node_helper.simps
      od_contains_def od_append_def add_to_ordered_job_def)

lemma run_job_example_dict_workflow:
  "make_job_context env example_dict_workflow RuntimeNone = Inr context \<Longrightarrow>
   run_job no_failure env example_dict_workflow ''c'' RuntimeNone [] =
     (Inr (), [(JobObject job_c, context)])"
  by (simp add: run_job_def find_job_def example_dict_workflow_order execute_job_def
      no_failure_def job_a_def job_b_def job_c_def)

section \<open>The workflow of a list of jobs\<close>

text \<open>
  \<^verbatim>\<open>Workflow\<close> wraps the elements of a list and names them by their positions, so the
  nodes are pairwise distinct, the graph is the chain of the list, the validator accepts
  it, and the sequential order is the list of the wrappers.
\<close>

lemma chain_graph_edges:
  assumes "(a, b) \<in> graph_edges (chain_graph xs)"
  shows "\<exists>i. Suc i < length xs \<and> a = xs ! i \<and> b = xs ! Suc i"
proof -
  from assms obtain deps where "map_of (chain_graph xs) a = Some deps" and b: "b \<in> set deps"
    by (auto simp: graph_edges_def)
  then have "(a, deps) \<in> set (chain_graph xs)" by (rule_tac map_of_SomeD)
  then obtain i where "i < length xs - 1" "a = xs ! i" "deps = [xs ! Suc i]"
    by (auto simp: chain_graph_def)
  with b have "Suc i < length xs \<and> a = xs ! i \<and> b = xs ! Suc i" by auto
  then show ?thesis ..
qed

lemma position_nth:
  assumes "distinct xs" "i < length xs"
  shows "length (takeWhile (\<lambda>y. y \<noteq> xs ! i) xs) = i"
proof -
  have "takeWhile (\<lambda>y. y \<noteq> xs ! i) xs = take i xs"
    using assms by (intro takeWhile_eq_take_P_nth) (auto simp: nth_eq_iff_index_eq)
  with assms(2) show ?thesis by simp
qed

lemma chain_graph_acyclic:
  assumes "distinct xs"
  shows "acyclic (graph_edges (chain_graph xs))"
proof (rule acyclicI_order[where f = "\<lambda>x. length xs - length (takeWhile (\<lambda>y. y \<noteq> x) xs)"])
  fix a b assume "(a, b) \<in> graph_edges (chain_graph xs)"
  from chain_graph_edges[OF this] obtain i
    where i: "Suc i < length xs" and a: "a = xs ! i" and b: "b = xs ! Suc i" by blast
  from i have "i < length xs" by simp
  from position_nth[OF assms this] position_nth[OF assms i] i
  show "length xs - length (takeWhile (\<lambda>y. y \<noteq> b) xs)
      < length xs - length (takeWhile (\<lambda>y. y \<noteq> a) xs)"
    unfolding a b by simp
qed

lemma validate_acyclic:
  assumes "acyclic (graph_edges g)"
  shows "validate g = Inr ()"
proof (cases "validate g")
  case (Inl e)
  from validate_error_cycle[OF this] assms show ?thesis by (auto simp: acyclic_def)
next
  case (Inr u)
  then show ?thesis by simp
qed

lemma validate_convert_list_to_graph:
  assumes "distinct xs"
  shows "validate (convert_list_to_graph xs) = Inr ()"
proof (cases "length xs = 1")
  case True
  then obtain x where "xs = [x]" by (cases xs) auto
  then show ?thesis
    by (simp add: convert_list_to_graph_single validate_def validate_if_not_cyclic_def
        validate_job.simps)
next
  case False
  from convert_list_to_graph_chain[OF assms False] chain_graph_acyclic[OF assms]
  show ?thesis by (simp add: validate_acyclic)
qed

lemma map_to_workflow_jobs_nth:
  "map_to_workflow_jobs job_list =
     map (\<lambda>i. WorkflowJob (job_list ! i) (Index i)) [0..<length job_list]"
  by (rule nth_equalityI) (simp_all add: map_to_workflow_jobs_def nth_enumerate_eq)

lemma map_to_workflow_jobs_distinct: "distinct (map_to_workflow_jobs job_list)"
  by (simp add: map_to_workflow_jobs_nth distinct_map inj_on_def)

text \<open>
  The names of the wrappers are pairwise distinct as well: on them the comparison of
  values is the comparison by name.
\<close>

lemma map_to_workflow_jobs_names: "distinct (map get_name (map_to_workflow_jobs job_list))"
  by (simp add: map_to_workflow_jobs_nth distinct_map inj_on_def comp_def)

lemma Workflow_of_list:
  "Workflow workflow_id' (DefinitionList job_list) schedule_interval' =
     Inr \<lparr>wf_definition =
            \<lparr>d_job_graph = convert_list_to_graph (map_to_workflow_jobs job_list)\<rparr>,
          schedule_interval = schedule_interval', workflow_id = workflow_id'\<rparr>"
  by (simp add: Workflow_def parse_definition_def Definition_def build_graph_def
      validate_convert_list_to_graph map_to_workflow_jobs_distinct)

lemma build_sequential_order_of_list:
  assumes "Workflow workflow_id' (DefinitionList job_list) schedule_interval' = Inr self"
  shows "build_sequential_order self = Inr (map_to_workflow_jobs job_list)"
proof (cases "job_list = []")
  case True
  with assms show ?thesis
    by (auto simp: Workflow_of_list build_sequential_order_def sequential_order_def
        job_order_resolver_def map_to_workflow_jobs_def convert_list_to_graph_def
        find_sequential_run_order_def JobOrderResolver_def build_parental_map_def
        call_on_graph_nodes_def)
next
  case False
  then have "map_to_workflow_jobs job_list \<noteq> []" by (simp add: map_to_workflow_jobs_nth)
  from chain_order[OF map_to_workflow_jobs_distinct this] assms show ?thesis
    by (auto simp: Workflow_of_list build_sequential_order_def sequential_order_def
        job_order_resolver_def)
qed

text \<open>
  On the workflow of a list of jobs, \<^verbatim>\<open>find_job\<close> returns the first job of the list with
  the \<^verbatim>\<open>id\<close>, and \<^verbatim>\<open>run_job\<close> hands that job to \<^verbatim>\<open>_execute_job\<close>; \<^verbatim>\<open>run\<close> raises on
  the first wrapper, whatever the jobs are.
\<close>

lemma find_job_loop_enumerate:
  "find_job_loop (map (\<lambda>(i, job). WorkflowJob job (Index i)) (enumerate n (map JobObject jobs)))
       job_id' =
     (case find (\<lambda>j. job_id j = job_id') jobs of
        None \<Rightarrow> Inl (ValueError (''Job '' @ job_id' @ '' not found.''))
      | Some j \<Rightarrow> Inr (JobObject j))"
  by (induction jobs arbitrary: n) simp_all

lemma run_job_of_job_list:
  assumes "Workflow workflow_id' (DefinitionList (map JobObject jobs)) schedule_interval' =
      Inr self"
    and "make_job_context env self runtime_arg = Inr context"
  shows "run_job behaviour env self job_id' runtime_arg calls =
     (case find (\<lambda>j. job_id j = job_id') jobs of
        None \<Rightarrow> (Inl (ValueError (''Job '' @ job_id' @ '' not found.'')), calls)
      | Some j \<Rightarrow> execute_job behaviour (JobObject j) context calls)"
  using assms(2) build_sequential_order_of_list[OF assms(1)]
    find_job_loop_enumerate[of 0 jobs job_id']
  by (simp add: run_job_def find_job_def map_to_workflow_jobs_def split: option.splits)

lemma workflow_of_job_list_nodes:
  assumes "Workflow workflow_id' (DefinitionList (map JobObject jobs)) schedule_interval' =
      Inr self"
  shows "\<forall>node \<in> graph_nodes (d_job_graph (wf_definition self)).
           \<exists>j name. node = WorkflowJob (JobObject j) name"
proof -
  from build_sequential_order_total[of self] build_sequential_order_of_list[OF assms]
  have "graph_nodes (d_job_graph (wf_definition self)) =
      set (map_to_workflow_jobs (map JobObject jobs))"
    by auto
  then show ?thesis by (auto simp: map_to_workflow_jobs_nth)
qed

lemma run_of_list:
  assumes "Workflow workflow_id' (DefinitionList job_list) schedule_interval' = Inr self"
    and "make_job_context env self runtime_arg = Inr context"
    and "job_list \<noteq> []"
  shows "run behaviour env self runtime_arg calls = (Inl (Exception ''XXX''), calls)"
proof -
  from assms(3) obtain job jobs where "job_list = job # jobs" by (cases job_list) auto
  with build_sequential_order_of_list[OF assms(1)]
  have "build_sequential_order self =
      Inr (WorkflowJob job (Index 0) # map (\<lambda>(i, job). WorkflowJob job (Index i)) (enumerate 1 jobs))"
    by (simp add: map_to_workflow_jobs_def)
  from run_raises_on_first_job[OF assms(2) this] show ?thesis .
qed

text \<open>
  Claim C4 says that \<^verbatim>\<open>run\<close> executes every job of the sequential order with one context.
  The code does not: \<^verbatim>\<open>run\<close> hands \<^verbatim>\<open>_execute_job\<close> the \<^verbatim>\<open>WorkflowJob\<close> of the order
  and not the job it wraps (as \<^verbatim>\<open>run_job\<close> does, through \<^verbatim>\<open>find_job\<close>); a
  \<^verbatim>\<open>WorkflowJob\<close> has no \<^verbatim>\<open>execute\<close>, so the first turn of the loop raises
  \<^verbatim>\<open>Exception("XXX")\<close> and no \<^verbatim>\<open>execute\<close> is called (\<open>run_raises_on_first_job\<close>). Here on
  \<^verbatim>\<open>Workflow('w', [job_a, job_b, job_c]).run()\<close>, whatever the jobs do.
\<close>

theorem run_executes_nothing:
  "Workflow ''w'' (DefinitionList [JobObject job_a, JobObject job_b, JobObject job_c]) DEFAULT_SCHEDULE_INTERVAL =
     Inr example_workflow \<and>
   has_execute job_a \<and> has_execute job_b \<and> has_execute job_c \<and>
   run behaviour env example_workflow RuntimeNone [] = (Inl (Exception ''XXX''), [])"
proof -
  have "has_execute job_a" "has_execute job_b" "has_execute job_c"
    by (simp_all add: job_a_def job_b_def job_c_def)
  with example_workflow_built
    run_raises_on_first_job[OF make_job_context_None example_workflow_order,
      where behaviour = behaviour and calls = "[]" and env = env]
  show ?thesis by simp
qed

text \<open>
  Claim C5 says that \<^verbatim>\<open>run\<close> propagates the exception of a job whose \<^verbatim>\<open>execute\<close> raises.
  The code does not reach that \<^verbatim>\<open>execute\<close>: with \<^verbatim>\<open>job_b\<close> raising, \<^verbatim>\<open>run\<close> on
  \<^verbatim>\<open>Workflow('w', [job_a, job_b, job_c])\<close> raises \<^verbatim>\<open>Exception("XXX")\<close> on the wrapper of
  \<^verbatim>\<open>job_a\<close>, and the caller never sees the exception of \<^verbatim>\<open>job_b\<close>.
\<close>

theorem run_hides_job_failure:
  "Workflow ''w'' (DefinitionList [JobObject job_a, JobObject job_b, JobObject job_c]) DEFAULT_SCHEDULE_INTERVAL =
     Inr example_workflow \<and>
   failing_behaviour (JobObject job_b) context = Some (JobFailure ''boom'') \<and>
   run failing_behaviour env example_workflow RuntimeNone [] = (Inl (Exception ''XXX''), []) \<and>
   fst (run failing_behaviour env example_workflow RuntimeNone []) \<noteq> Inl (JobFailure ''boom'')"
  using run_raises_on_first_job[OF make_job_context_None example_workflow_order,
      where behaviour = failing_behaviour and calls = "[]" and env = env]
  by (simp add: failing_behaviour_def example_workflow_built)





section \<open>The start-time helpers\<close>

lemma seconds_split:
  fixes S :: int
  shows "(S div 3600 * 60 + S mod 3600 div 60) * 60 + S mod 3600 mod 60 = S"
proof -
  define R where "R = S mod 3600"
  have a: "R div 60 * 60 + R mod 60 = R" by (rule div_mult_mod_eq)
  have b: "S div 3600 * 3600 + R = S" unfolding R_def by (rule div_mult_mod_eq)
  have "(S div 3600 * 60 + R div 60) * 60 + R mod 60 = S div 3600 * 3600 + (R div 60 * 60 + R mod 60)"
    by (simp add: algebra_simps)
  also have "\<dots> = S" unfolding a b ..
  finally show ?thesis unfolding R_def .
qed

lemma days_split:
  fixes T :: int
  shows "T div 86400000000 * 86400 + T div 1000000 mod 86400 = T div 1000000"
proof -
  have "T div (1000000 * 86400) = T div 1000000 div 86400"
    by (rule zdiv_zmult2_eq) simp
  then have "T div 86400000000 = T div 1000000 div 86400" by simp
  then show ?thesis by (simp only: div_mult_mod_eq)
qed

text \<open>The result of a subtraction that does not overflow, field by field.\<close>

lemma datetime_sub_Inr:
  assumes "datetime_sub d td = (Inr r :: 'a error + datetime)"
  defines "T \<equiv> datetime_total_microseconds d - total_microseconds td"
  shows "r = \<lparr>ordinal = T div 86400000000, hour = T div 1000000 mod 86400 div 3600,
      minute = T div 1000000 mod 86400 mod 3600 div 60,
      second = T div 1000000 mod 86400 mod 3600 mod 60, microsecond = T mod 1000000\<rparr>"
    and "0 < T div 86400000000" and "T div 86400000000 \<le> MAXORDINAL"
proof -
  have c: "0 < T div 86400000000 \<and> T div 86400000000 \<le> MAXORDINAL"
  proof (rule ccontr)
    assume "\<not> ?thesis"
    then have "datetime_sub d td = (Inl OverflowError :: 'a error + datetime)"
      by (simp add: datetime_sub_def Let_def td_days_def T_def)
    with assms(1) show False by simp
  qed
  then show "0 < T div 86400000000" "T div 86400000000 \<le> MAXORDINAL" by simp_all
  from c have "datetime_sub d td = (Inr \<lparr>ordinal = T div 86400000000,
      hour = T div 1000000 mod 86400 div 3600,
      minute = T div 1000000 mod 86400 mod 3600 div 60,
      second = T div 1000000 mod 86400 mod 3600 mod 60,
      microsecond = T mod 1000000\<rparr> :: 'a error + datetime)"
    by (simp add: datetime_sub_def Let_def td_days_def td_seconds_def td_microseconds_def T_def)
  with assms(1) show "r = \<lparr>ordinal = T div 86400000000, hour = T div 1000000 mod 86400 div 3600,
      minute = T div 1000000 mod 86400 mod 3600 div 60,
      second = T div 1000000 mod 86400 mod 3600 mod 60, microsecond = T mod 1000000\<rparr>"
    by simp
qed

lemma datetime_sub_total:
  assumes "datetime_sub d td = (Inr r :: 'a error + datetime)"
  shows "datetime_total_microseconds r = datetime_total_microseconds d - total_microseconds td"
proof -
  define T where "T = datetime_total_microseconds d - total_microseconds td"
  define S where "S = T div 1000000 mod 86400"
  note r = datetime_sub_Inr(1)[OF assms, folded T_def, folded S_def]
  have "((ordinal r * 24 + hour r) * 60 + minute r) * 60 + second r =
        T div 86400000000 * 86400 + ((S div 3600 * 60 + S mod 3600 div 60) * 60 + S mod 3600 mod 60)"
    by (subst (1 2 3 4) r) (simp add: algebra_simps)
  also have "\<dots> = T div 1000000"
    unfolding seconds_split S_def by (rule days_split)
  finally have "datetime_total_microseconds r = T div 1000000 * 1000000 + microsecond r"
    unfolding datetime_total_microseconds_def by simp
  also have "microsecond r = T mod 1000000" by (subst r) simp
  finally show ?thesis by (simp add: T_def)
qed

lemma div_range:
  fixes S :: int
  assumes "0 \<le> S" "S < k * n" "0 < n"
  shows "0 \<le> S div n \<and> S div n < k"
proof -
  from assms(1,3) have "0 \<le> S div n" by (simp add: pos_imp_zdiv_nonneg_iff)
  moreover have "S div n < k"
  proof (rule ccontr)
    assume "\<not> S div n < k"
    then have a: "k * n \<le> S div n * n" using assms(3) by (simp add: mult_right_mono)
    have e: "S div n * n + S mod n = S" by simp
    have p: "0 \<le> S mod n" using assms(3) by simp
    from e p have "S div n * n \<le> S" by linarith
    with a assms(2) show False by linarith
  qed
  ultimately show ?thesis ..
qed

lemma datetime_sub_time_of_day:
  assumes "datetime_sub d td = (Inr r :: 'a error + datetime)"
  shows "0 \<le> hour r \<and> hour r < 24 \<and> 0 \<le> minute r \<and> minute r < 60 \<and>
         0 \<le> second r \<and> second r < 60 \<and> 0 \<le> microsecond r \<and> microsecond r < 1000000 \<and>
         0 < ordinal r \<and> ordinal r \<le> MAXORDINAL"
proof -
  define T where "T = datetime_total_microseconds d - total_microseconds td"
  define S where "S = T div 1000000 mod 86400"
  define R where "R = S mod 3600"
  note r = datetime_sub_Inr(1)[OF assms, folded T_def, folded S_def, folded R_def]
  note rng = datetime_sub_Inr(2,3)[OF assms, folded T_def]
  have "0 \<le> S" "S < 24 * 3600" by (simp_all add: S_def)
  then have h: "0 \<le> S div 3600 \<and> S div 3600 < 24" by (intro div_range) simp_all
  have "0 \<le> R" "R < 60 * 60" by (simp_all add: R_def)
  then have m: "0 \<le> R div 60 \<and> R div 60 < 60" by (intro div_range) simp_all
  have s: "0 \<le> R mod 60 \<and> R mod 60 < 60" by simp
  have u: "0 \<le> T mod 1000000 \<and> T mod 1000000 < 1000000" by simp
  from h m s u rng show ?thesis by (subst (1 2 3 4 5 6 7 8 9 10) r) simp
qed

lemma get_timezone_offset_seconds_range:
  "0 \<le> get_timezone_offset_seconds env \<and> get_timezone_offset_seconds env < 86400"
  by (simp add: get_timezone_offset_seconds_def td_seconds_def)

lemma daily_start_time_eq:
  "(daily_start_time start_time :: 'a error + datetime) =
     (if 1 < ordinal start_time \<and> ordinal start_time \<le> MAXORDINAL + 1
      then Inr \<lparr>ordinal = ordinal start_time - 1, hour = 0, minute = 0, second = 0,
                microsecond = 0\<rparr>
      else Inl OverflowError)"
proof -
  define T where "T = (ordinal start_time - 1) * 86400000000"
  have T: "datetime_total_microseconds (start_time\<lparr>hour := 0, minute := 0, second := 0, microsecond := 0\<rparr>)
      - total_microseconds (timedelta_hours 24) = T"
    by (simp add: datetime_total_microseconds_def timedelta_hours_def algebra_simps T_def)
  have d: "T div 86400000000 = ordinal start_time - 1" by (simp add: T_def)
  have "T = (ordinal start_time - 1) * 86400 * 1000000" by (simp add: T_def)
  then have q: "T div 1000000 = (ordinal start_time - 1) * 86400" and u: "T mod 1000000 = 0"
    by simp_all
  have s: "T div 1000000 mod 86400 = 0" unfolding q by simp
  show ?thesis
    unfolding daily_start_time_def datetime_sub_def Let_def T td_days_def td_seconds_def
      td_microseconds_def timedelta.sel
    by (simp add: d s u)
qed

lemma hourly_start_time_spec:
  assumes "hourly_start_time env start_time = (Inr r :: 'a error + datetime)"
  shows "microsecond r = 0"
    and "datetime_total_microseconds r =
           datetime_total_microseconds (start_time\<lparr>microsecond := 0\<rparr>)
             - get_timezone_offset_seconds env * 1000000"
    and "minute r * 60 + second r =
           (minute start_time * 60 + second start_time - get_timezone_offset_seconds env) mod 3600"
proof -
  define off where "off = get_timezone_offset_seconds env"
  define q where "q = ((ordinal start_time * 24 + hour start_time) * 60 + minute start_time) * 60
             + second start_time - off"
  from assms have s: "datetime_sub (start_time\<lparr>microsecond := 0\<rparr>) (timedelta_seconds off)
      = (Inr r :: 'a error + datetime)"
    by (simp add: hourly_start_time_def Let_def off_def)
  have T: "datetime_total_microseconds (start_time\<lparr>microsecond := 0\<rparr>)
      - total_microseconds (timedelta_seconds off) = q * 1000000"
    by (simp add: datetime_total_microseconds_def timedelta_seconds_def q_def algebra_simps)
  from datetime_sub_total[OF s]
  show "datetime_total_microseconds r =
           datetime_total_microseconds (start_time\<lparr>microsecond := 0\<rparr>)
             - get_timezone_offset_seconds env * 1000000"
    by (simp add: timedelta_seconds_def off_def)
  define R where "R = q mod 86400 mod 3600"
  have qd: "q * 1000000 div 1000000 = q" and qm: "q * 1000000 mod 1000000 = 0" by simp_all
  note r = datetime_sub_Inr(1)[OF s, unfolded T qd qm, folded R_def]
  show "microsecond r = 0" by (subst r) simp
  have "minute r * 60 + second r = R div 60 * 60 + R mod 60" by (subst (1 2) r) simp
  also have "\<dots> = R" by (rule div_mult_mod_eq)
  also have "R = q mod 3600" unfolding R_def by (rule mod_mod_cancel) simp
  also have "q = (minute start_time * 60 + second start_time - off)
        + (ordinal start_time * 24 + hour start_time) * 3600"
    by (simp add: q_def algebra_simps)
  also have "\<dots> mod 3600 = (minute start_time * 60 + second start_time - off) mod 3600"
    by (rule mod_mult_self1)
  finally show "minute r * 60 + second r =
           (minute start_time * 60 + second start_time - get_timezone_offset_seconds env) mod 3600"
    by (simp add: off_def)
qed


text \<open>
  The subtraction of a number of seconds from a timestamp of full seconds, by the time of
  day: \<open>t\<close> is the time of day in seconds less the seconds taken away. The result stays
  on the day when \<open>t\<close> is not negative and falls on the day before otherwise, which does
  not exist for day 1.
\<close>

lemma div_mod_offset:
  fixes a r :: int
  assumes "0 \<le> r" "r < 86400"
  shows "(a * 86400 + r) div 86400 = a" "(a * 86400 + r) mod 86400 = r"
  using assms by (simp_all add: div_pos_pos_trivial mod_pos_pos_trivial)

lemma time_of_day_fields:
  fixes S :: int
  shows "S mod 3600 mod 60 = S mod 60"
  by (rule mod_mod_cancel) simp

lemma datetime_sub_seconds:
  assumes v: "valid_datetime d" and m: "microsecond d = 0" and s: "0 \<le> s" "s < 86400"
  defines "t \<equiv> hour d * 3600 + minute d * 60 + second d - s"
  shows "(datetime_sub d (timedelta_seconds s) :: 'a error + datetime) =
     (if 0 \<le> t
      then Inr \<lparr>ordinal = ordinal d, hour = t div 3600, minute = t mod 3600 div 60,
                second = t mod 60, microsecond = 0\<rparr>
      else if 1 < ordinal d
      then Inr \<lparr>ordinal = ordinal d - 1, hour = (t + 86400) div 3600,
                minute = (t + 86400) mod 3600 div 60, second = (t + 86400) mod 60,
                microsecond = 0\<rparr>
      else Inl OverflowError)"
proof -
  define q where "q = ordinal d * 86400 + t"
  define T where "T = datetime_total_microseconds d - total_microseconds (timedelta_seconds s)"
  have T: "T = q * 1000000"
    using m by (simp add: T_def q_def t_def datetime_total_microseconds_def
        timedelta_seconds_def algebra_simps)
  have qd: "T div 1000000 = q" and qm: "T mod 1000000 = 0" by (simp_all add: T)
  have days: "T div 86400000000 = q div 86400"
    using days_split[of T] by (simp add: qd)
  from v have tod: "0 \<le> hour d * 3600 + minute d * 60 + second d"
    "hour d * 3600 + minute d * 60 + second d < 86400"
    and o: "1 \<le> ordinal d" "ordinal d \<le> MAXORDINAL"
    by (simp_all add: valid_datetime_def)
  from tod s have tr: "- 86400 < t" "t < 86400" by (simp_all add: t_def)
  have sub: "(datetime_sub d (timedelta_seconds s) :: 'a error + datetime) =
     (if 0 < q div 86400 \<and> q div 86400 \<le> MAXORDINAL
      then Inr \<lparr>ordinal = q div 86400, hour = q mod 86400 div 3600,
                minute = q mod 86400 mod 3600 div 60, second = q mod 86400 mod 3600 mod 60,
                microsecond = 0\<rparr>
      else Inl OverflowError)"
    unfolding datetime_sub_def Let_def td_days_def td_seconds_def td_microseconds_def
      timedelta.sel T_def[symmetric]
    using days qd qm by simp
  show ?thesis
  proof (cases "0 \<le> t")
    case True
    with tr have "q div 86400 = ordinal d" "q mod 86400 = t"
      unfolding q_def by (simp_all add: div_mod_offset)
    with True o show ?thesis unfolding sub by (simp add: time_of_day_fields)
  next
    case False
    have "q = (ordinal d - 1) * 86400 + (t + 86400)" by (simp add: q_def algebra_simps)
    moreover from False tr have "0 \<le> t + 86400" "t + 86400 < 86400" by simp_all
    ultimately have "q div 86400 = ordinal d - 1" "q mod 86400 = t + 86400"
      by (simp_all only: div_mod_offset)
    with False o show ?thesis unfolding sub by (simp add: time_of_day_fields)
  qed
qed

lemma get_timezone_offset_seconds_east:
  assumes "0 \<le> s" "s < 86400" "local_utcoffset env = timedelta_seconds s"
  shows "get_timezone_offset_seconds env = s"
  using assms by (simp add: get_timezone_offset_seconds_def td_seconds_def timedelta_seconds_def)

lemma hourly_start_time_eq:
  assumes "valid_datetime start_time" "0 \<le> s" "s < 86400"
    "local_utcoffset env = timedelta_seconds s"
  shows "(hourly_start_time env start_time :: 'a error + datetime) =
     (let t = hour start_time * 3600 + minute start_time * 60 + second start_time - s
      in if 0 \<le> t
         then Inr \<lparr>ordinal = ordinal start_time, hour = t div 3600,
                   minute = t mod 3600 div 60, second = t mod 60, microsecond = 0\<rparr>
         else if 1 < ordinal start_time
         then Inr \<lparr>ordinal = ordinal start_time - 1, hour = (t + 86400) div 3600,
                   minute = (t + 86400) mod 3600 div 60, second = (t + 86400) mod 60,
                   microsecond = 0\<rparr>
         else Inl OverflowError)"
proof -
  from assms(1) have v: "valid_datetime (start_time\<lparr>microsecond := 0\<rparr>)"
    by (simp add: valid_datetime_def)
  from datetime_sub_seconds[OF v _ assms(2,3), where 'a = 'a]
  show ?thesis
    by (simp add: hourly_start_time_def get_timezone_offset_seconds_east[OF assms(2-4)] Let_def)
qed

lemma hourly_start_time_result:
  assumes "hourly_start_time env start_time = (Inr r :: 'a error + datetime)"
  shows "valid_datetime r"
proof -
  from assms have "datetime_sub (start_time\<lparr>microsecond := 0\<rparr>)
      (timedelta_seconds (get_timezone_offset_seconds env)) = (Inr r :: 'a error + datetime)"
    by (simp add: hourly_start_time_def Let_def)
  from datetime_sub_time_of_day[OF this] show ?thesis by (simp add: valid_datetime_def)
qed

lemma hourly_example:
  "(hourly_start_time example_env example_start_time :: nat error + datetime) =
     Inr \<lparr>ordinal = 737603, hour = 15, minute = 30, second = 45, microsecond = 0\<rparr>"
  by (simp add: hourly_start_time_def get_timezone_offset_seconds_def example_env_def
      example_start_time_def timedelta_seconds_def td_seconds_def td_days_def td_microseconds_def
      datetime_sub_def datetime_total_microseconds_def MAXORDINAL_def Let_def)

text \<open>
  In a zone behind UTC the offset is negative and its \<^verbatim>\<open>seconds\<close> attribute counts from
  a day earlier: five hours behind, \<^verbatim>\<open>get_timezone_offset_seconds\<close> returns 68400, and
  \<^verbatim>\<open>hourly_start_time\<close> takes 19 hours off 2020-06-27 15:30:45. The statement of the
  helpers below is about the zones at or ahead of UTC.
\<close>

lemma hourly_start_time_behind_utc:
  "get_timezone_offset_seconds example_env_west = 68400"
  "(hourly_start_time example_env_west example_start_time :: nat error + datetime) =
     Inr \<lparr>ordinal = 737602, hour = 20, minute = 30, second = 45, microsecond = 0\<rparr>"
  by (simp_all add: hourly_start_time_def get_timezone_offset_seconds_def example_env_def
      example_env_west_def
      example_start_time_def timedelta_seconds_def td_seconds_def td_days_def td_microseconds_def
      datetime_sub_def datetime_total_microseconds_def MAXORDINAL_def Let_def)

text \<open>
  Claim C9, amended. \<^verbatim>\<open>daily_start_time\<close> returns midnight of the day before the
  timestamp's day (its day boundary minus 24 hours), whatever the local zone, and raises
  \<^verbatim>\<open>OverflowError\<close> where that day would be before day 1. In a local zone whose offset
  from UTC is \<open>s\<close> seconds, zero or positive and less than a day, that offset is what
  \<^verbatim>\<open>get_timezone_offset_seconds\<close> returns, and \<^verbatim>\<open>hourly_start_time\<close> returns the
  timestamp with its microseconds set to zero, minutes and seconds kept, minus the
  offset: on the same day when the offset is not more than the time of day, on the day
  before otherwise, and \<^verbatim>\<open>OverflowError\<close> where that day would be before day 1. What it
  returns is a timestamp with every field in its range. Both are functions of their input,
  \<^verbatim>\<open>hourly_start_time\<close> of the local zone as well.
\<close>

theorem start_time_helpers:
  "(daily_start_time start_time :: 'a error + datetime) =
     (if 1 < ordinal start_time \<and> ordinal start_time \<le> MAXORDINAL + 1
      then Inr \<lparr>ordinal = ordinal start_time - 1, hour = 0, minute = 0, second = 0,
                microsecond = 0\<rparr>
      else Inl OverflowError) \<and>
   (valid_datetime start_time \<and> 0 \<le> s \<and> s < 86400 \<and>
    local_utcoffset env = timedelta_seconds s \<longrightarrow>
      get_timezone_offset_seconds env = s \<and>
      (hourly_start_time env start_time :: 'a error + datetime) =
        (let t = hour start_time * 3600 + minute start_time * 60 + second start_time - s
         in if 0 \<le> t
            then Inr \<lparr>ordinal = ordinal start_time, hour = t div 3600,
                      minute = t mod 3600 div 60, second = t mod 60, microsecond = 0\<rparr>
            else if 1 < ordinal start_time
            then Inr \<lparr>ordinal = ordinal start_time - 1, hour = (t + 86400) div 3600,
                      minute = (t + 86400) mod 3600 div 60, second = (t + 86400) mod 60,
                      microsecond = 0\<rparr>
            else Inl OverflowError) \<and>
      (\<forall>r. hourly_start_time env start_time = (Inr r :: 'a error + datetime) \<longrightarrow>
         valid_datetime r \<and>
         datetime_total_microseconds r =
           datetime_total_microseconds (start_time\<lparr>microsecond := 0\<rparr>) - s * 1000000))"
proof (intro conjI impI allI)
  show "(daily_start_time start_time :: 'a error + datetime) =
     (if 1 < ordinal start_time \<and> ordinal start_time \<le> MAXORDINAL + 1
      then Inr \<lparr>ordinal = ordinal start_time - 1, hour = 0, minute = 0, second = 0,
                microsecond = 0\<rparr>
      else Inl OverflowError)"
    by (rule daily_start_time_eq)
next
  assume "valid_datetime start_time \<and> 0 \<le> s \<and> s < 86400 \<and>
    local_utcoffset env = timedelta_seconds s"
  then show "get_timezone_offset_seconds env = s"
    by (simp add: get_timezone_offset_seconds_east)
next
  assume "valid_datetime start_time \<and> 0 \<le> s \<and> s < 86400 \<and>
    local_utcoffset env = timedelta_seconds s"
  then show "(hourly_start_time env start_time :: 'a error + datetime) =
        (let t = hour start_time * 3600 + minute start_time * 60 + second start_time - s
         in if 0 \<le> t
            then Inr \<lparr>ordinal = ordinal start_time, hour = t div 3600,
                      minute = t mod 3600 div 60, second = t mod 60, microsecond = 0\<rparr>
            else if 1 < ordinal start_time
            then Inr \<lparr>ordinal = ordinal start_time - 1, hour = (t + 86400) div 3600,
                      minute = (t + 86400) mod 3600 div 60, second = (t + 86400) mod 60,
                      microsecond = 0\<rparr>
            else Inl OverflowError)"
    by (intro hourly_start_time_eq) simp_all
next
  fix r
  assume "hourly_start_time env start_time = (Inr r :: 'a error + datetime)"
  then show "valid_datetime r" by (rule hourly_start_time_result)
next
  fix r
  assume a: "valid_datetime start_time \<and> 0 \<le> s \<and> s < 86400 \<and>
    local_utcoffset env = timedelta_seconds s"
    and h: "hourly_start_time env start_time = (Inr r :: 'a error + datetime)"
  from a have "get_timezone_offset_seconds env = s"
    by (simp add: get_timezone_offset_seconds_east)
  with hourly_start_time_spec(2)[OF h]
  show "datetime_total_microseconds r =
           datetime_total_microseconds (start_time\<lparr>microsecond := 0\<rparr>) - s * 1000000"
    by simp
qed

text \<open>
  Two hours ahead of UTC: 2020-06-27 15:30:45.000123 gives 13:30:45 of that day,
  01:15:00 gives 23:15:00 of the day before, and 0001-01-01 00:30:00 is refused.
\<close>

theorem start_time_helpers_witness:
  "valid_datetime example_start_time \<and> valid_datetime example_early_start_time \<and>
   valid_datetime first_hour \<and>
   local_utcoffset example_env_east = timedelta_seconds 7200 \<and>
   get_timezone_offset_seconds example_env_east = 7200 \<and>
   (hourly_start_time example_env_east example_start_time :: nat error + datetime) =
     Inr \<lparr>ordinal = 737603, hour = 13, minute = 30, second = 45, microsecond = 0\<rparr> \<and>
   (hourly_start_time example_env_east example_early_start_time :: nat error + datetime) =
     Inr \<lparr>ordinal = 737602, hour = 23, minute = 15, second = 0, microsecond = 0\<rparr> \<and>
   (hourly_start_time example_env_east first_hour :: nat error + datetime) =
     Inl OverflowError \<and>
   (daily_start_time example_start_time :: nat error + datetime) =
     Inr \<lparr>ordinal = 737602, hour = 0, minute = 0, second = 0, microsecond = 0\<rparr> \<and>
   (daily_start_time first_hour :: nat error + datetime) = Inl OverflowError"
proof -
  have v: "valid_datetime example_start_time" "valid_datetime example_early_start_time"
    "valid_datetime first_hour"
    by (simp_all add: valid_datetime_def example_start_time_def example_early_start_time_def
        first_hour_def MAXORDINAL_def)
  have e: "local_utcoffset example_env_east = timedelta_seconds 7200"
    by (simp add: example_env_east_def)
  from start_time_helpers[where 'a = nat, of example_start_time 7200 example_env_east] v e
  have a: "get_timezone_offset_seconds example_env_east = 7200"
    "(hourly_start_time example_env_east example_start_time :: nat error + datetime) =
     Inr \<lparr>ordinal = 737603, hour = 13, minute = 30, second = 45, microsecond = 0\<rparr>"
    "(daily_start_time example_start_time :: nat error + datetime) =
     Inr \<lparr>ordinal = 737602, hour = 0, minute = 0, second = 0, microsecond = 0\<rparr>"
    by (simp_all add: example_start_time_def MAXORDINAL_def)
  from start_time_helpers[where 'a = nat, of example_early_start_time 7200 example_env_east] v e
  have b: "(hourly_start_time example_env_east example_early_start_time :: nat error + datetime) =
     Inr \<lparr>ordinal = 737602, hour = 23, minute = 15, second = 0, microsecond = 0\<rparr>"
    by (simp add: example_early_start_time_def)
  from start_time_helpers[where 'a = nat, of first_hour 7200 example_env_east] v e
  have c: "(hourly_start_time example_env_east first_hour :: nat error + datetime) =
     Inl OverflowError"
    "(daily_start_time first_hour :: nat error + datetime) = Inl OverflowError"
    by (simp_all add: first_hour_def)
  from v e a b c show ?thesis by blast
qed

text \<open>
  The claim as stated, truncation to the hour and the UTC offset subtracted by both,
  fails in the zone UTC on 2020-06-27 15:30:45.000123: \<^verbatim>\<open>hourly_start_time\<close> gives
  15:30:45 and not 15:00:00, and \<^verbatim>\<open>daily_start_time\<close> gives 2020-06-26 00:00:00 and
  not 2020-06-27 00:00:00.
\<close>

theorem start_time_helpers_counterexample:
  "get_timezone_offset_seconds example_env = 0 \<and>
   (hourly_start_time example_env example_start_time :: nat error + datetime) =
     Inr (example_start_time\<lparr>microsecond := 0\<rparr>) \<and>
   (hourly_start_time example_env example_start_time :: nat error + datetime) \<noteq>
     Inr (example_start_time\<lparr>minute := 0, second := 0, microsecond := 0\<rparr>) \<and>
   (daily_start_time example_start_time :: nat error + datetime) =
     Inr \<lparr>ordinal = 737602, hour = 0, minute = 0, second = 0, microsecond = 0\<rparr> \<and>
   (daily_start_time example_start_time :: nat error + datetime) \<noteq>
     Inr (example_start_time\<lparr>hour := 0, minute := 0, second := 0, microsecond := 0\<rparr>)"
proof -
  have z: "get_timezone_offset_seconds example_env = 0"
    by (simp add: get_timezone_offset_seconds_def td_seconds_def example_env_def)
  have h: "(hourly_start_time example_env example_start_time :: nat error + datetime) =
     Inr (example_start_time\<lparr>microsecond := 0\<rparr>)"
    unfolding hourly_example by (simp add: example_start_time_def)
  have h': "(hourly_start_time example_env example_start_time :: nat error + datetime) \<noteq>
     Inr (example_start_time\<lparr>minute := 0, second := 0, microsecond := 0\<rparr>)"
    unfolding hourly_example by (simp add: example_start_time_def)
  have d: "(daily_start_time example_start_time :: nat error + datetime) =
     Inr \<lparr>ordinal = 737602, hour = 0, minute = 0, second = 0, microsecond = 0\<rparr>"
    by (simp add: daily_start_time_eq example_start_time_def MAXORDINAL_def)
  have d': "(daily_start_time example_start_time :: nat error + datetime) \<noteq>
     Inr (example_start_time\<lparr>hour := 0, minute := 0, second := 0, microsecond := 0\<rparr>)"
    unfolding d by (simp add: example_start_time_def)
  from z h h' d d' show ?thesis by blast
qed

section \<open>The runtime of a context\<close>

text \<open>
  Claim C7 says that a string matching neither format raises the error for an unparseable
  runtime. The code means to (\<^verbatim>\<open>raise ValueError("Unable to parse 'run_time' %r" % rt)\<close>)
  and does not: the variable \<^verbatim>\<open>rt\<close> of that line is not bound (the argument is
  \<^verbatim>\<open>runtime\<close>), so what is raised is \<^verbatim>\<open>NameError\<close>. The rest of the claim holds
  (\<open>make_job_context_eq\<close>): the first format is tried first, then the second, the first
  parse that succeeds gives the runtime, \<^verbatim>\<open>None\<close> gives the clock's time and a
  \<^verbatim>\<open>datetime\<close> is taken as it is.
\<close>

theorem unparseable_runtime_raises_name_error:
  "strptime example_env ''next tuesday'' ''%Y-%m-%d %H:%M:%S'' = None \<and>
   strptime example_env ''next tuesday'' ''%Y-%m-%d'' = None \<and>
   make_job_context example_env example_workflow (RuntimeStr ''next tuesday'') =
     Inl (NameError ''rt'')"
  by (simp add: make_job_context_eq example_env_def example_strptime_def)

text \<open>
  Claim C8, amended. For a runtime that is \<^verbatim>\<open>None\<close> or a \<^verbatim>\<open>datetime\<close>, the
  \<^verbatim>\<open>runtime_as_str\<close> of the context is its \<^verbatim>\<open>runtime\<close> rendered with the first format
  \<^verbatim>\<open>"%Y-%m-%d %H:%M:%S"\<close>; for a string that parses, it is that string itself, unchanged.
\<close>

theorem runtime_as_str_spec:
  assumes "make_job_context env self runtime_raw = Inr context"
  shows "runtime_as_str context =
     (case runtime_raw of
        RuntimeStr s \<Rightarrow> s
      | RuntimeNone \<Rightarrow> strftime env (runtime context) ''%Y-%m-%d %H:%M:%S''
      | RuntimeDatetime d \<Rightarrow> strftime env (runtime context) ''%Y-%m-%d %H:%M:%S'')"
  using assms by (cases runtime_raw) (auto simp: make_job_context_eq split: option.splits)

theorem runtime_as_str_spec_witness:
  "make_job_context example_env example_workflow RuntimeNone =
     Inr \<lparr>runtime = example_afternoon, runtime_as_str = ''2020-06-27 15:00:00'',
          workflow = example_workflow\<rparr> \<and>
   make_job_context example_env example_workflow (RuntimeDatetime example_day) =
     Inr \<lparr>runtime = example_day, runtime_as_str = ''2020-06-27 00:00:00'',
          workflow = example_workflow\<rparr> \<and>
   make_job_context example_env example_workflow (RuntimeStr ''2020-06-27 15:00:00'') =
     Inr \<lparr>runtime = example_afternoon, runtime_as_str = ''2020-06-27 15:00:00'',
          workflow = example_workflow\<rparr> \<and>
   runtime_as_str \<lparr>runtime = example_afternoon, runtime_as_str = ''2020-06-27 15:00:00'',
          workflow = example_workflow\<rparr> =
     strftime example_env example_afternoon ''%Y-%m-%d %H:%M:%S''"
proof -
  have a: "make_job_context example_env example_workflow RuntimeNone =
     Inr \<lparr>runtime = example_afternoon, runtime_as_str = ''2020-06-27 15:00:00'',
          workflow = example_workflow\<rparr>"
    by (simp add: make_job_context_eq example_env_def example_strftime_def)
  have b: "make_job_context example_env example_workflow (RuntimeDatetime example_day) =
     Inr \<lparr>runtime = example_day, runtime_as_str = ''2020-06-27 00:00:00'',
          workflow = example_workflow\<rparr>"
    by (simp add: make_job_context_eq example_env_def example_strftime_def example_day_def
        example_afternoon_def)
  have c: "make_job_context example_env example_workflow (RuntimeStr ''2020-06-27 15:00:00'') =
     Inr \<lparr>runtime = example_afternoon, runtime_as_str = ''2020-06-27 15:00:00'',
          workflow = example_workflow\<rparr>"
    by (simp add: make_job_context_eq example_env_def example_strptime_def)
  from runtime_as_str_spec[OF a] a b c show ?thesis by simp
qed

text \<open>
  The claim as stated, that \<^verbatim>\<open>runtime_as_str\<close> is the rendered runtime for every accepted
  argument, fails on \<^verbatim>\<open>"2020-06-27"\<close>: the context keeps the ten characters, and its
  runtime renders as \<^verbatim>\<open>"2020-06-27 00:00:00"\<close>.
\<close>

theorem runtime_as_str_counterexample:
  "make_job_context example_env example_workflow (RuntimeStr ''2020-06-27'') =
     Inr \<lparr>runtime = example_day, runtime_as_str = ''2020-06-27'', workflow = example_workflow\<rparr> \<and>
   strftime example_env example_day ''%Y-%m-%d %H:%M:%S'' = ''2020-06-27 00:00:00'' \<and>
   ''2020-06-27'' \<noteq> ''2020-06-27 00:00:00''"
  by (simp add: make_job_context_eq example_env_def example_strptime_def example_strftime_def
      example_day_def example_afternoon_def)


end
